theory Spec2Isabelle
  imports Complex_Main "HOL-Library.Char_ord" "HOL-Library.List_Lexorder"
begin

section \<open>Errors\<close>

text \<open>
  Every exception the modelled code raises is a value of \<open>error\<close>. The first group are
  the exception classes of \<^verbatim>\<open>lightbus.exceptions\<close> that the sources name, the
  second group are Python's built-in exceptions, and \<open>External\<close> stands for whatever an
  external collaborator (schema validator, plugin hook, lazy loader) raises.
\<close>

datatype error =
    UnknownApi
  | EventNotFound
  | InvalidName
  | InvalidEventArguments nat "string list" nat "string list"
  | InvalidEventListener
  | NothingToListenFor
  | ListenerAlreadyRegistered string
  | NotImplementedError
  | AttributeError
  | TypeError
  | KeyError
  | ValueError
  | External string

section \<open>Transport capability contracts (transports/base.py)\<close>

text \<open>
  \<^verbatim>\<open>EventTransport.consume\<close> of the base class raises \<^verbatim>\<open>NotImplementedError\<close> as
  its whole body; it does not look at \<^verbatim>\<open>listen_for\<close>.
  \<^verbatim>\<open>_sanity_check_listen_for\<close> is a separate utility that a backend calls at the
  start of its own \<^verbatim>\<open>consume\<close>.
\<close>

definition consume :: "(string \<times> string) list \<Rightarrow> string \<Rightarrow> error + unit" where
  "consume listen_for listener_name = Inl NotImplementedError"

definition sanity_check_listen_for :: "(string \<times> string) list \<Rightarrow> error + unit" where
  "sanity_check_listen_for listen_for =
     (if listen_for = [] then Inl NothingToListenFor else Inr ())"

section \<open>Producer: the queue monitor (internal_messaging/producer.py)\<close>

text \<open>
  The two calls of \<^verbatim>\<open>logger.warning\<close> in \<^verbatim>\<open>_queue_monitor\<close>, with the values
  they format: the growth warning (\<^verbatim>\<open>Queue in %s now has %s commands.\<close>) and the
  shrink message (\<^verbatim>\<open>Queue in %s has shrunk back down to %s commands. %s.\<close>), whose
  last argument is \<^verbatim>\<open>everything_ok\<close>.
\<close>

datatype log_record =
    NowHas nat
  | ShrunkBackDown nat string

definition ok_again :: string where
  "ok_again = '' Queue is now at an OK size again.''"

text \<open>
  One iteration of the \<^verbatim>\<open>while True\<close> loop: \<open>previous_size\<close> is \<open>None\<close> before
  the first sample, and \<^verbatim>\<open>current_size != previous_size\<close> is true then.
\<close>

definition show_size_warning :: "nat \<Rightarrow> nat option \<Rightarrow> nat \<Rightarrow> bool" where
  "show_size_warning size_warning previous_size current_size =
     (current_size \<ge> size_warning \<and> Some current_size \<noteq> previous_size)"

definition queue_has_shrunk :: "nat \<Rightarrow> nat option \<Rightarrow> nat \<Rightarrow> bool" where
  "queue_has_shrunk size_warning previous_size current_size =
     (case previous_size of
        None \<Rightarrow> False
      | Some p \<Rightarrow> current_size < p \<and> p \<ge> size_warning)"

definition monitor_sample :: "nat \<Rightarrow> nat option \<Rightarrow> nat \<Rightarrow> log_record list" where
  "monitor_sample size_warning previous_size current_size =
     (if show_size_warning size_warning previous_size current_size
         \<or> queue_has_shrunk size_warning previous_size current_size
      then
        (if queue_has_shrunk size_warning previous_size current_size
         then [ShrunkBackDown current_size
                 (if \<not> show_size_warning size_warning previous_size current_size
                  then ok_again else [])]
         else if show_size_warning size_warning previous_size current_size
         then [NowHas current_size]
         else [])
      else [])"

text \<open>
  The loop over the successive values of \<^verbatim>\<open>self.queue.qsize()\<close>: the log written
  while the given samples are read, starting from \<open>previous_size\<close>.
\<close>

fun queue_monitor :: "nat \<Rightarrow> nat option \<Rightarrow> nat list \<Rightarrow> log_record list" where
  "queue_monitor size_warning previous_size [] = []"
| "queue_monitor size_warning previous_size (current_size # samples) =
     monitor_sample size_warning previous_size current_size
       @ queue_monitor size_warning (Some current_size) samples"

section \<open>Commands and messages\<close>

text \<open>
  Python values that travel as keyword arguments, and a \<^verbatim>\<open>dict\<close> with string keys
  as an association list. A key that occurs twice counts once, as in a \<^verbatim>\<open>dict\<close>.
\<close>

datatype py_value = PyNone | PyInt int | PyStr string

type_synonym py_dict = "(string \<times> py_value) list"

definition dict_keys :: "py_dict \<Rightarrow> string list" where
  "dict_keys d = remdups (map fst d)"

definition dict_len :: "py_dict \<Rightarrow> nat" where
  "dict_len d = length (dict_keys d)"

text \<open>
  The four fields that \<^verbatim>\<open>fire_event\<close> passes to the constructor of
  \<^verbatim>\<open>EventMessage\<close>.
\<close>

record event_message =
  api_name :: string
  event_name :: string
  kwargs :: py_dict
  version :: nat

text \<open>
  Modelled from the spec: \<^verbatim>\<open>lightbus.client.commands\<close> is not among the sources.
  The spec's data model lists the variants \<^verbatim>\<open>SendEvent{message, options}\<close>,
  \<^verbatim>\<open>AcknowledgeEvent{message, options}\<close>,
  \<^verbatim>\<open>ConsumeEvents{events, destination_queue, listener_name}\<close> and
  \<^verbatim>\<open>ReceiveEvent{message, listener_name}\<close>; the sources construct them with exactly
  these keyword arguments. A destination queue is the number of an
  \<^verbatim>\<open>asyncio.Queue\<close> object.
\<close>

datatype command =
    SendEventCommand event_message "py_dict option"
  | AcknowledgeEventCommand event_message "py_dict option"
  | ConsumeEventsCommand "(string \<times> string) list" nat string
  | ReceiveEventCommand event_message string

section \<open>The state of one client\<close>

text \<open>
  How the coroutine of a handler ended: it returned, it raised, or it was cancelled.
\<close>

datatype outcome = Succeeded | Failed string | Cancelled

datatype task_status = Pending | Done outcome

text \<open>
  A background task made by \<^verbatim>\<open>handle_in_background\<close>: the command its handler
  runs, the completion signal that its \<^verbatim>\<open>when_task_finished\<close> callback closes over,
  and whether the handler is still running.
\<close>

record task =
  task_command :: command
  on_done :: nat
  status :: task_status

text \<open>
  Objects are numbered: an \<^verbatim>\<open>asyncio.Event\<close> made by \<^verbatim>\<open>send\<close> is a number
  below \<open>next_event\<close>, a task a number below \<open>next_task\<close>, an intake queue a number
  below \<open>next_queue\<close>. \<open>set_calls e\<close> counts the calls of \<^verbatim>\<open>set()\<close> on
  event \<open>e\<close>; the event is set when the count is positive. \<open>unfinished_tasks\<close> is
  the counter of the shared \<^verbatim>\<open>asyncio.Queue\<close> that \<^verbatim>\<open>put_nowait\<close> increments
  and \<^verbatim>\<open>task_done\<close> decrements. \<open>consumer_task\<close> says that
  \<^verbatim>\<open>_consumer_task\<close> is not \<^verbatim>\<open>None\<close>, that is, that the consumer loop runs.
  \<open>slept\<close> is the time spent in \<^verbatim>\<open>asyncio.sleep\<close> by \<^verbatim>\<open>stop\<close>, and
  \<open>hook_calls\<close> the hooks executed so far, in order. The events \<^verbatim>\<open>_ready\<close> and
  \<^verbatim>\<open>_monitor_ready\<close> are left out: none of the functions below waits for them.
\<close>

record bus =
  queue :: "(command \<times> nat) list"
  unfinished_tasks :: nat
  next_event :: nat
  set_calls :: "nat \<Rightarrow> nat"
  consumer_task :: bool
  running_commands :: "nat set"
  tasks :: "nat \<rightharpoonup> task"
  next_task :: nat
  error_queue :: "string list"
  slept :: rat
  event_listeners :: "string set"
  next_queue :: nat
  incoming_events :: "nat \<Rightarrow> event_message list"
  hook_calls :: "(string \<times> event_message) list"

definition initial :: bus where
  "initial =
     \<lparr>queue = [], unfinished_tasks = 0, next_event = 0, set_calls = (\<lambda>e. 0),
      consumer_task = False, running_commands = {}, tasks = Map.empty, next_task = 0,
      error_queue = [], slept = 0, event_listeners = {}, next_queue = 0,
      incoming_events = (\<lambda>q. []), hook_calls = []\<rparr>"

definition is_set :: "nat \<Rightarrow> bus \<Rightarrow> bool" where
  "is_set e s = (0 < set_calls s e)"

section \<open>Producer: send (internal_messaging/producer.py)\<close>

text \<open>
  \<^verbatim>\<open>send\<close> makes a new event, puts the pair on the queue and returns the event.
\<close>

definition send :: "command \<Rightarrow> bus \<Rightarrow> nat \<times> bus" where
  "send c s =
     (next_event s,
      s\<lparr>queue := queue s @ [(c, next_event s)],
        unfinished_tasks := Suc (unfinished_tasks s),
        next_event := Suc (next_event s)\<rparr>)"

section \<open>Consumer (internal_messaging/consumer.py)\<close>

definition start :: "bus \<Rightarrow> bus" where
  "start s = s\<lparr>consumer_task := True, running_commands := {}\<rparr>"

text \<open>
  Modelled from the spec: \<^verbatim>\<open>queue_exception_checker\<close> of
  \<^verbatim>\<open>lightbus.client.utilities\<close> is not among the sources. The spec says that an
  exception raised by the handler is forwarded to the shared error channel.
\<close>

definition queue_exception_checker :: "outcome \<Rightarrow> bus \<Rightarrow> bus" where
  "queue_exception_checker out s =
     (case out of
        Failed x \<Rightarrow> s\<lparr>error_queue := error_queue s @ [x]\<rparr>
      | _ \<Rightarrow> s)"

text \<open>
  The callback \<^verbatim>\<open>when_task_finished\<close>. \<^verbatim>\<open>set.remove\<close> raises
  \<^verbatim>\<open>KeyError\<close> for an absent element, and \<^verbatim>\<open>Queue.task_done\<close> raises
  \<^verbatim>\<open>ValueError\<close> when the counter is already zero; an exception ends the callback
  where it is raised.
\<close>

definition when_task_finished :: "nat \<Rightarrow> nat \<Rightarrow> bus \<Rightarrow> error option \<times> bus" where
  "when_task_finished fut ev s =
     (if fut \<notin> running_commands s then (Some KeyError, s)
      else
        let s1 = s\<lparr>running_commands := running_commands s - {fut}\<rparr> in
        if unfinished_tasks s1 = 0 then (Some ValueError, s1)
        else
          (None,
           s1\<lparr>unfinished_tasks := unfinished_tasks s1 - 1,
              set_calls := (set_calls s1)(ev := Suc (set_calls s1 ev))\<rparr>))"

text \<open>
  \<^verbatim>\<open>handle_in_background\<close>: a new task runs \<^verbatim>\<open>handler(command)\<close>, is added to
  the running set and gets its two callbacks.
\<close>

definition handle_in_background :: "command \<Rightarrow> nat \<Rightarrow> bus \<Rightarrow> bus" where
  "handle_in_background c ev s =
     s\<lparr>tasks := (tasks s)(next_task s \<mapsto> \<lparr>task_command = c, on_done = ev, status = Pending\<rparr>),
       running_commands := insert (next_task s) (running_commands s),
       next_task := Suc (next_task s)\<rparr>"

text \<open>
  One turn of the loop of \<^verbatim>\<open>_consumer_loop\<close>: with an empty queue the loop stays
  in \<^verbatim>\<open>queue.get()\<close>; a cancelled loop does nothing.
\<close>

definition consumer_loop :: "bus \<Rightarrow> bus" where
  "consumer_loop s =
     (if \<not> consumer_task s then s
      else
        (case queue s of
           [] \<Rightarrow> s
         | (c, ev) # rest \<Rightarrow> handle_in_background c ev (s\<lparr>queue := rest\<rparr>)))"

text \<open>
  The handler of a pending task ends with \<open>out\<close>: the task is done, and the event loop
  calls its done callbacks in the order in which they were added.
\<close>

definition task_finishes :: "nat \<Rightarrow> outcome \<Rightarrow> bus \<Rightarrow> bus" where
  "task_finishes t out s =
     (case tasks s t of
        None \<Rightarrow> s
      | Some k \<Rightarrow>
          (case status k of
             Done _ \<Rightarrow> s
           | Pending \<Rightarrow>
               snd (when_task_finished t (on_done k)
                 (queue_exception_checker out
                   (s\<lparr>tasks := (tasks s)(t \<mapsto> k\<lparr>status := Done out\<rparr>)\<rparr>)))))"

text \<open>
  What the other coroutines of the event loop do, one step at a time: a caller sends a
  command, the consumer loop takes a turn, or a handler ends.
\<close>

datatype input = Send command | ConsumerLoop | TaskFinishes nat outcome

fun step :: "input \<Rightarrow> bus \<Rightarrow> bus" where
  "step (Send c) s = snd (send c s)"
| "step ConsumerLoop s = consumer_loop s"
| "step (TaskFinishes t out) s = task_finishes t out s"

definition run :: "input list \<Rightarrow> bus \<Rightarrow> bus" where
  "run ins s = fold step ins s"

text \<open>
  Modelled from the spec: \<^verbatim>\<open>cancel\<close> of \<^verbatim>\<open>lightbus.utilities.async_tools\<close> is
  not among the sources. The spec says that every task still in the running set is
  forcibly cancelled; each one ends as cancelled and its callbacks run.
\<close>

definition cancel :: "nat list \<Rightarrow> bus \<Rightarrow> bus" where
  "cancel ts s = fold (\<lambda>t. task_finishes t Cancelled) ts s"

text \<open>
  \<^verbatim>\<open>asyncio.sleep\<close>: the caller is suspended for the delay, and meanwhile the rest
  of the system takes the steps \<open>others\<close>.
\<close>

definition sleep :: "rat \<Rightarrow> input list \<Rightarrow> bus \<Rightarrow> bus" where
  "sleep delay others s = run others (s\<lparr>slept := slept s + delay\<rparr>)"

text \<open>
  The loop \<^verbatim>\<open>for _ in range(100)\<close> of \<^verbatim>\<open>stop\<close>, with \<open>n\<close> turns left and
  \<open>i\<close> turns done; \<open>while_sleeping i\<close> is what happens during the sleep of turn \<open>i\<close>.
\<close>

fun drain :: "nat \<Rightarrow> rat \<Rightarrow> (nat \<Rightarrow> input list) \<Rightarrow> nat \<Rightarrow> bus \<Rightarrow> bus" where
  "drain 0 delay while_sleeping i s = s"
| "drain (Suc n) delay while_sleeping i s =
     drain n delay while_sleeping (Suc i)
       (if running_commands s \<noteq> {} then sleep delay (while_sleeping i) s else s)"

text \<open>
  \<^verbatim>\<open>stop\<close> up to the end of the polling loop. When \<^verbatim>\<open>_consumer_task\<close> is not
  \<^verbatim>\<open>None\<close> the consumer loop is cancelled: the loop, which is suspended in
  \<^verbatim>\<open>queue.get()\<close>, takes no further turn from the moment the cancellation is
  requested, so \<open>consumer_task\<close> is false from then on, and \<open>while_cancelling\<close> is what
  the rest of the system does while \<^verbatim>\<open>stop\<close> awaits the cancellation. Then the
  running set is polled a hundred times, with a sleep of \<^verbatim>\<open>wait_seconds / 100\<close>
  whenever it is not empty.
\<close>

definition stop_drain :: "rat \<Rightarrow> input list \<Rightarrow> (nat \<Rightarrow> input list) \<Rightarrow> bus \<Rightarrow> bus" where
  "stop_drain wait_seconds while_cancelling while_sleeping s =
     drain 100 (wait_seconds / 100) while_sleeping 0
       (if consumer_task s then run while_cancelling (s\<lparr>consumer_task := False\<rparr>) else s)"

text \<open>
  The rest of \<^verbatim>\<open>stop\<close>: the tasks of the running set are cancelled (a Python set has
  no order of its own; the ascending order is taken here) and the running set is replaced
  by the empty set. Sleep times are rational numbers, added exactly.
\<close>

definition stop :: "rat \<Rightarrow> input list \<Rightarrow> (nat \<Rightarrow> input list) \<Rightarrow> bus \<Rightarrow> bus" where
  "stop wait_seconds while_cancelling while_sleeping s =
     (let s2 = stop_drain wait_seconds while_cancelling while_sleeping s;
          s3 = cancel (sorted_list_of_set (running_commands s2)) s2
      in s3\<lparr>running_commands := {}\<rparr>)"

section \<open>Event client (client/subclients/event.py)\<close>

text \<open>
  What a call of a coroutine comes to: it returns, it raises, or it stays suspended in an
  \<^verbatim>\<open>await\<close> that is never resumed.
\<close>

datatype 'a result = Returned 'a | Raised error | Suspended

text \<open>
  \<^verbatim>\<open>Event.wait()\<close>: returns at once when the event is set; otherwise the caller is
  suspended while the rest of the system takes the steps \<open>others\<close>, and it resumes if
  the event has been set by then.
\<close>

definition wait :: "nat \<Rightarrow> input list \<Rightarrow> bus \<Rightarrow> bool \<times> bus" where
  "wait ev others s =
     (if is_set ev s then (True, s)
      else (is_set ev (run others s), run others s))"

text \<open>
  An element of \<^verbatim>\<open>event.parameters\<close> is a \<^verbatim>\<open>Parameter\<close> object or a plain name:
  \<^verbatim>\<open>p.name if isinstance(p, Parameter) else p\<close>.
\<close>

datatype parameter = Parameter string | Plain string

fun parameter_name :: "parameter \<Rightarrow> string" where
  "parameter_name (Parameter n) = n"
| "parameter_name (Plain n) = n"

text \<open>
  An API of the registry: \<^verbatim>\<open>api.meta.name\<close>, \<^verbatim>\<open>api.meta.version\<close>, and
  \<^verbatim>\<open>api.get_event(name).parameters\<close>, which raises \<^verbatim>\<open>EventNotFound\<close> for a name
  that is not an event of the API.
\<close>

record api =
  meta_name :: string
  meta_version :: nat
  get_event :: "string \<rightharpoonup> parameter list"

text \<open>
  The collaborators of the event client whose code is not among the sources, as
  parameters: the lazy loader, the API registry (\<^verbatim>\<open>get\<close> raises
  \<^verbatim>\<open>UnknownApi\<close> for an unregistered name), the check of a name's syntax, the
  transformation of the arguments into wire-safe form, the schema validator and the
  plugin hooks. A collaborator that fails gives the text of its exception.
\<close>

record collaborators =
  lazy_load_now :: "string option"
  api_registry :: "string \<rightharpoonup> api"
  validate_event_or_rpc_name :: "string \<Rightarrow> string \<Rightarrow> string \<Rightarrow> bool"
  deform_to_bus :: "py_dict \<Rightarrow> py_dict"
  validate_outgoing :: "event_message \<Rightarrow> string option"
  hook :: "string \<Rightarrow> event_message \<Rightarrow> string option"

definition execute_hook ::
  "collaborators \<Rightarrow> string \<Rightarrow> event_message \<Rightarrow> bus \<Rightarrow> string option \<times> bus" where
  "execute_hook env name event_message s =
     (hook env name event_message,
      s\<lparr>hook_calls := hook_calls s @ [(name, event_message)]\<rparr>)"

text \<open>
  Modelled from the spec: \<^verbatim>\<open>send_to_event_transports\<close> of
  \<^verbatim>\<open>BaseSubClient\<close> is not among the sources. The spec says that the command is
  dispatched through the Producer.
\<close>

definition send_to_event_transports :: "command \<Rightarrow> bus \<Rightarrow> nat \<times> bus" where
  "send_to_event_transports c s = send c s"

text \<open>
  Lines 57 to 68 of \<^verbatim>\<open>fire_event\<close>: the comparison of the two sets of names, and the
  error with \<^verbatim>\<open>len(kwargs)\<close>, \<^verbatim>\<open>sorted(kwargs.keys())\<close>,
  \<^verbatim>\<open>len(event.parameters)\<close> and \<^verbatim>\<open>sorted(parameter_names)\<close>.
\<close>

definition parameter_names :: "parameter list \<Rightarrow> string set" where
  "parameter_names parameters = set (map parameter_name parameters)"

definition check_event_arguments :: "py_dict \<Rightarrow> parameter list \<Rightarrow> error option" where
  "check_event_arguments kw parameters =
     (if set (dict_keys kw) \<noteq> parameter_names parameters
      then Some (InvalidEventArguments
                   (dict_len kw)
                   (sort (dict_keys kw))
                   (length parameters)
                   (sort (remdups (map parameter_name parameters))))
      else None)"

text \<open>
  Lines 70 to 84 of \<^verbatim>\<open>fire_event\<close>: the message is built and validated, the
  \<^verbatim>\<open>before_event_sent\<close> hook runs, the command is sent and its completion awaited,
  and the \<^verbatim>\<open>after_event_sent\<close> hook runs.
\<close>

definition send_event ::
  "collaborators \<Rightarrow> input list \<Rightarrow> api \<Rightarrow> string \<Rightarrow> py_dict \<Rightarrow> py_dict option \<Rightarrow> bus
     \<Rightarrow> unit result \<times> bus" where
  "send_event env others a name kw options s =
     (let event_message =
            \<lparr>api_name = meta_name a, event_name = name,
             kwargs = deform_to_bus env kw, version = meta_version a\<rparr>
      in
      case validate_outgoing env event_message of
        Some x \<Rightarrow> (Raised (External x), s)
      | None \<Rightarrow>
          (case execute_hook env ''before_event_sent'' event_message s of
             (Some x, s1) \<Rightarrow> (Raised (External x), s1)
           | (None, s1) \<Rightarrow>
               (case send_to_event_transports (SendEventCommand event_message options) s1 of
                  (ev, s2) \<Rightarrow>
                    (case wait ev others s2 of
                       (False, s3) \<Rightarrow> (Suspended, s3)
                     | (True, s3) \<Rightarrow>
                         (case execute_hook env ''after_event_sent'' event_message s3 of
                            (Some x, s4) \<Rightarrow> (Raised (External x), s4)
                          | (None, s4) \<Rightarrow> (Returned (), s4))))))"

text \<open>\<^verbatim>\<open>kwargs or {}\<close>, for \<^verbatim>\<open>kwargs\<close> that is a \<^verbatim>\<open>dict\<close> or \<^verbatim>\<open>None\<close>.\<close>

definition or_empty :: "py_dict option \<Rightarrow> py_dict" where
  "or_empty d = (case d of None \<Rightarrow> [] | Some kw \<Rightarrow> kw)"

definition fire_event ::
  "collaborators \<Rightarrow> input list \<Rightarrow> string \<Rightarrow> string \<Rightarrow> py_dict option \<Rightarrow> py_dict option
     \<Rightarrow> bus \<Rightarrow> unit result \<times> bus" where
  "fire_event env others api_name' name kwargs' options s =
     (case lazy_load_now env of
        Some x \<Rightarrow> (Raised (External x), s)
      | None \<Rightarrow>
          (let kw = or_empty kwargs' in
           case api_registry env api_name' of
             None \<Rightarrow> (Raised UnknownApi, s)
           | Some a \<Rightarrow>
               if \<not> validate_event_or_rpc_name env api_name' ''event'' name
               then (Raised InvalidName, s)
               else
                 (case get_event a name of
                    None \<Rightarrow> (Raised EventNotFound, s)
                  | Some parameters \<Rightarrow>
                      (case check_event_arguments kw parameters of
                         Some e \<Rightarrow> (Raised e, s)
                       | None \<Rightarrow> send_event env others a name kw options s))))"

text \<open>
  A listener as \<^verbatim>\<open>sanity_check_listener\<close> sees it: whether it is callable, and the
  kinds of the parameters of \<^verbatim>\<open>inspect.signature(listener)\<close>.
\<close>

datatype parameter_kind =
    POSITIONAL_ONLY
  | POSITIONAL_OR_KEYWORD
  | VAR_POSITIONAL
  | KEYWORD_ONLY
  | VAR_KEYWORD

datatype py_object = NotCallable | Callable "parameter_kind list"

text \<open>
  The loop over the parameters, on the pair
  (\<^verbatim>\<open>total_positional_args\<close>, \<^verbatim>\<open>has_variable_positional_args\<close>).
\<close>

fun count_parameters :: "parameter_kind list \<Rightarrow> nat \<times> bool \<Rightarrow> nat \<times> bool" where
  "count_parameters [] acc = acc"
| "count_parameters (kind # kinds) (total_positional_args, has_variable_positional_args) =
     count_parameters kinds
       (if kind = POSITIONAL_ONLY \<or> kind = POSITIONAL_OR_KEYWORD
        then (Suc total_positional_args, has_variable_positional_args)
        else if kind = VAR_POSITIONAL
        then (total_positional_args, True)
        else (total_positional_args, has_variable_positional_args))"

definition sanity_check_listener :: "py_object \<Rightarrow> error option" where
  "sanity_check_listener listener =
     (case listener of
        NotCallable \<Rightarrow> Some InvalidEventListener
      | Callable kinds \<Rightarrow>
          (case count_parameters kinds (0, False) of
             (total_positional_args, has_variable_positional_args) \<Rightarrow>
               if has_variable_positional_args then None
               else if total_positional_args = 0 then Some InvalidEventListener
               else None))"

text \<open>
  The loop \<^verbatim>\<open>for api_name, name in events\<close> of \<^verbatim>\<open>listen\<close>: the first name that
  fails the check raises.
\<close>

fun validate_events :: "collaborators \<Rightarrow> (string \<times> string) list \<Rightarrow> error option" where
  "validate_events env [] = None"
| "validate_events env ((api_name', name) # events) =
     (if validate_event_or_rpc_name env api_name' ''event'' name
      then validate_events env events
      else Some InvalidName)"

text \<open>
  \<^verbatim>\<open>listen\<close>. The coroutine function \<^verbatim>\<open>listener()\<close> that it defines after the
  checks is never called or scheduled, so the definition has no effect on the state;
  \<^verbatim>\<open>asyncio.Queue()\<close> makes a new queue object. The name is added to
  \<^verbatim>\<open>_event_listeners\<close> in the last statement, after the wait.
\<close>

definition listen ::
  "collaborators \<Rightarrow> input list \<Rightarrow> (string \<times> string) list \<Rightarrow> py_object \<Rightarrow> string
     \<Rightarrow> py_dict option \<Rightarrow> bus \<Rightarrow> unit result \<times> bus" where
  "listen env others events listener listener_name options s =
     (case sanity_check_listener listener of
        Some e \<Rightarrow> (Raised e, s)
      | None \<Rightarrow>
          if listener_name \<in> event_listeners s
          then (Raised (ListenerAlreadyRegistered listener_name), s)
          else
            (case validate_events env events of
               Some e \<Rightarrow> (Raised e, s)
             | None \<Rightarrow>
                 (let q = next_queue s;
                      s1 = s\<lparr>next_queue := Suc (next_queue s)\<rparr>
                  in
                  case send (ConsumeEventsCommand events q listener_name) s1 of
                    (ev, s2) \<Rightarrow>
                      (case wait ev others s2 of
                         (False, s3) \<Rightarrow> (Suspended, s3)
                       | (True, s3) \<Rightarrow>
                           (Returned (),
                            s3\<lparr>event_listeners :=
                                 insert listener_name (event_listeners s3)\<rparr>)))))"

text \<open>
  \<^verbatim>\<open>_event_listeners\<close> is a Python \<^verbatim>\<open>set\<close> of names (\<^verbatim>\<open>Set[str]\<close>, made by
  \<^verbatim>\<open>set()\<close> and filled by \<^verbatim>\<open>add\<close>). A \<^verbatim>\<open>set\<close> has no method
  \<^verbatim>\<open>keys\<close>, so \<^verbatim>\<open>self._event_listeners.keys()\<close> raises
  \<^verbatim>\<open>AttributeError\<close>, and it is not subscriptable, so
  \<^verbatim>\<open>self._event_listeners[name]\<close> raises \<^verbatim>\<open>TypeError\<close>. Had the subscript
  given a listener, its \<^verbatim>\<open>incoming_events\<close> would be the number of a queue.
\<close>

definition set_keys :: "string set \<Rightarrow> error + string list" where
  "set_keys names = Inl AttributeError"

definition set_getitem :: "string set \<Rightarrow> string \<Rightarrow> error + nat" where
  "set_getitem names name = Inl TypeError"

text \<open>
  \<^verbatim>\<open>handle_receive_event\<close>, on the two fields of the command. The arguments of
  \<^verbatim>\<open>logger.debug\<close> are evaluated before the call.
\<close>

definition handle_receive_event :: "event_message \<Rightarrow> string \<Rightarrow> bus \<Rightarrow> unit result \<times> bus" where
  "handle_receive_event message listener_name s =
     (if listener_name \<notin> event_listeners s
      then
        (case set_keys (event_listeners s) of
           Inl e \<Rightarrow> (Raised e, s)
         | Inr names \<Rightarrow> (Returned (), s))
      else
        (case set_getitem (event_listeners s) listener_name of
           Inl e \<Rightarrow> (Raised e, s)
         | Inr q \<Rightarrow>
             (Returned (),
              s\<lparr>incoming_events := (incoming_events s)(q := incoming_events s q @ [message])\<rparr>)))"

text \<open>
  A command is an instance of its class. \<^verbatim>\<open>__name__\<close> is an attribute of classes and
  functions, not of their instances, and no field of a command has that name, so
  \<^verbatim>\<open>command.__name__\<close> raises \<^verbatim>\<open>AttributeError\<close>.
\<close>

definition command_dunder_name :: "command \<Rightarrow> error + string" where
  "command_dunder_name c = Inl AttributeError"

text \<open>
  \<^verbatim>\<open>handle\<close> dispatches on the class of the command: \<^verbatim>\<open>handle_receive_event\<close> is
  the one registered implementation. The default body evaluates the f-string, which reads
  \<^verbatim>\<open>command.__name__\<close>, before it raises \<^verbatim>\<open>NotImplementedError\<close>.
\<close>

fun handle :: "command \<Rightarrow> bus \<Rightarrow> unit result \<times> bus" where
  "handle (ReceiveEventCommand message listener_name) s =
     handle_receive_event message listener_name s"
| "handle c s =
     (case command_dunder_name c of
        Inl e \<Rightarrow> (Raised e, s)
      | Inr n \<Rightarrow> (Raised NotImplementedError, s))"

section \<open>Well-formed states of the channel\<close>

text \<open>
  What holds of the channel in every state that a started client reaches: the running set
  is finite and holds exactly the pending tasks; the queue's counter of unfinished items
  counts the queued commands and the running tasks; tasks and events are numbered below
  the next free numbers; no two tasks and no two queued commands share a completion
  signal, and no queued command shares one with a task; and \<^verbatim>\<open>set()\<close> has been
  called once on the signal of every task that is done and never on another event.
\<close>

definition done_signal :: "bus \<Rightarrow> nat \<Rightarrow> bool" where
  "done_signal s e = (\<exists>t k out. tasks s t = Some k \<and> on_done k = e \<and> status k = Done out)"

definition channel_inv :: "bus \<Rightarrow> bool" where
  "channel_inv s =
     (finite (running_commands s)
      \<and> running_commands s = {t. \<exists>k. tasks s t = Some k \<and> status k = Pending}
      \<and> unfinished_tasks s = length (queue s) + card (running_commands s)
      \<and> (\<forall>t k. tasks s t = Some k \<longrightarrow> t < next_task s \<and> on_done k < next_event s)
      \<and> (\<forall>t t' k k'. tasks s t = Some k \<longrightarrow> tasks s t' = Some k'
             \<longrightarrow> on_done k = on_done k' \<longrightarrow> t = t')
      \<and> (\<forall>p \<in> set (queue s). snd p < next_event s
             \<and> (\<forall>t k. tasks s t = Some k \<longrightarrow> on_done k \<noteq> snd p))
      \<and> distinct (map snd (queue s))
      \<and> (\<forall>e. set_calls s e = (if done_signal s e then 1 else 0)))"

text \<open>
  From \<open>s\<close> to \<open>s'\<close> no handler was started and no task that had ended was changed:
  the consumer loop is not running in \<open>s'\<close>, the tasks are the same ones, and a task
  that was done in \<open>s\<close> is as it was.
\<close>

definition no_new_tasks :: "bus \<Rightarrow> bus \<Rightarrow> bool" where
  "no_new_tasks s s' =
     (\<not> consumer_task s'
      \<and> dom (tasks s') = dom (tasks s)
      \<and> next_task s' = next_task s
      \<and> (\<forall>t k. tasks s t = Some k \<and> status k \<noteq> Pending \<longrightarrow> tasks s' t = Some k))"

text \<open>
  The schedule of a call of \<^verbatim>\<open>stop\<close>: what the rest of the system does while
  \<^verbatim>\<open>stop\<close> awaits the cancellation of the consumer loop (when there is a loop to
  cancel), followed by what it does during the sleeps of the hundred polls, in order.
  \<open>endings t ins\<close> are the outcomes with which the steps \<open>ins\<close> end the handler of task
  \<open>t\<close>, in order; the first one, if any, is how a pending handler ends.
\<close>

fun endings :: "nat \<Rightarrow> input list \<Rightarrow> outcome list" where
  "endings t [] = []"
| "endings t (TaskFinishes u out # ins) =
     (if u = t then out # endings t ins else endings t ins)"
| "endings t (i # ins) = endings t ins"

definition stop_schedule :: "bool \<Rightarrow> input list \<Rightarrow> (nat \<Rightarrow> input list) \<Rightarrow> input list" where
  "stop_schedule loop_running while_cancelling while_sleeping =
     (if loop_running then while_cancelling else []) @ concat (map while_sleeping [0..<100])"

section \<open>An example: the API \<^verbatim>\<open>shop\<close> with the event \<^verbatim>\<open>order_placed\<close>\<close>

text \<open>
  The registry holds the API \<^verbatim>\<open>shop\<close>, whose event \<^verbatim>\<open>order_placed\<close> declares
  the parameter \<^verbatim>\<open>order_id\<close>; names are valid when they are not empty; validation
  and hooks pass, and the arguments are wire-safe as they are.
\<close>

definition shop_api :: api where
  "shop_api =
     \<lparr>meta_name = ''shop'', meta_version = 1,
      get_event = [''order_placed'' \<mapsto> [Parameter ''order_id'']]\<rparr>"

definition shop_env :: collaborators where
  "shop_env =
     \<lparr>lazy_load_now = None,
      api_registry = [''shop'' \<mapsto> shop_api],
      validate_event_or_rpc_name = (\<lambda>a t n. a \<noteq> [] \<and> n \<noteq> []),
      deform_to_bus = (\<lambda>d. d),
      validate_outgoing = (\<lambda>m. None),
      hook = (\<lambda>n m. None)\<rparr>"

definition order_placed :: event_message where
  "order_placed =
     \<lparr>api_name = ''shop'', event_name = ''order_placed'',
      kwargs = [(''order_id'', PyInt 1)], version = 1\<rparr>"

text \<open>
  A listener with one positional parameter is registered as \<^verbatim>\<open>L1\<close> for
  \<^verbatim>\<open>[("shop", "order_placed")]\<close> on a started client, while the consumer takes the
  \<^verbatim>\<open>ConsumeEvents\<close> command and its handler ends.
\<close>

definition listen_L1 :: "unit result \<times> bus" where
  "listen_L1 =
     listen shop_env [ConsumerLoop, TaskFinishes 0 Succeeded] [(''shop'', ''order_placed'')]
       (Callable [POSITIONAL_OR_KEYWORD]) ''L1'' None (start initial)"

text \<open>
  A started client on which two commands have been sent and taken by the consumer, so that
  the tasks 0 and 1 are running; and a schedule in which the handler of task 0 ends
  during the first sleep of \<^verbatim>\<open>stop\<close> and nothing else happens.
\<close>

definition two_running :: bus where
  "two_running =
     run [Send (SendEventCommand order_placed None),
          Send (AcknowledgeEventCommand order_placed None),
          ConsumerLoop, ConsumerLoop] (start initial)"

definition first_ends :: "nat \<Rightarrow> input list" where
  "first_ends i = (if i = 0 then [TaskFinishes 0 Succeeded] else [])"

section \<open>Properties of the transport contracts\<close>

text \<open>
  Claim C8, as the code has it: \<^verbatim>\<open>consume\<close> of the default
  \<^verbatim>\<open>EventTransport\<close> fails with the unsupported-operation error for every
  \<^verbatim>\<open>listen_for\<close>, the empty one included; the empty-listen-for error comes from the
  utility \<^verbatim>\<open>_sanity_check_listen_for\<close>, which raises it exactly for an empty
  \<^verbatim>\<open>listen_for\<close>.
\<close>

theorem consume_default_unsupported:
  "consume listen_for listener_name = Inl NotImplementedError
   \<and> (sanity_check_listen_for listen_for = Inl NothingToListenFor) = (listen_for = [])"
  by (simp add: consume_def sanity_check_listen_for_def)

text \<open>
  The claim as stated fails: with an empty \<^verbatim>\<open>listen_for\<close> the default
  \<^verbatim>\<open>consume\<close> raises \<^verbatim>\<open>NotImplementedError\<close>, not
  \<^verbatim>\<open>NothingToListenFor\<close>.
\<close>

theorem consume_empty_listen_for_counterexample:
  "consume [] ''L1'' = Inl NotImplementedError \<and> consume [] ''L1'' \<noteq> Inl NothingToListenFor"
  by (simp add: consume_def)

section \<open>Properties of the queue monitor\<close>

lemma queue_monitor_append:
  "queue_monitor w prev (samples @ [cur]) =
     queue_monitor w prev samples @ monitor_sample w (last (prev # map Some samples)) cur"
  by (induction samples arbitrary: prev) simp_all

text \<open>
  Claim C6, as the code has it: for every sequence of samples, each new sample adds to the
  log what \<open>monitor_sample\<close> gives for it and the sample before it, which is at most one
  message: the growth warning exactly when the length is at or above the threshold and
  the sample is the first one or larger than the one before; the shrink message exactly
  when the length is below the one before, which was at or above the threshold, and this
  message carries the recovery text exactly when the new length is below the threshold;
  and nothing otherwise, in particular nothing for an unchanged length.
\<close>

theorem queue_monitor_log:
  "queue_monitor w prev (samples @ [cur]) =
     queue_monitor w prev samples @ monitor_sample w (last (prev # map Some samples)) cur
   \<and> monitor_sample w None cur = (if w \<le> cur then [NowHas cur] else [])
   \<and> monitor_sample w (Some p) cur =
       (if p < cur \<and> w \<le> cur then [NowHas cur]
        else if cur < p \<and> w \<le> p
        then [ShrunkBackDown cur (if cur < w then ok_again else [])]
        else [])"
  by (auto simp: queue_monitor_append monitor_sample_def show_size_warning_def
      queue_has_shrunk_def)

text \<open>
  The claim as stated fails on the samples 10, 7 with threshold 5: the second sample is at
  or above the threshold and differs from the one before, yet no growth warning is logged
  for it; the shrink message is logged instead, while the length is still above the
  threshold.
\<close>

theorem queue_monitor_shrink_counterexample:
  "queue_monitor 5 None [10, 7] = [NowHas 10, ShrunkBackDown 7 []]"
  by (simp add: monitor_sample_def show_size_warning_def queue_has_shrunk_def)

section \<open>Properties of the dispatch entry point\<close>

text \<open>
  Claim C10, evaluated on the code: routing a command of a variant without a registered
  handler through \<^verbatim>\<open>handle\<close> raises \<^verbatim>\<open>AttributeError\<close>, from
  \<^verbatim>\<open>command.__name__\<close> in the message, before \<^verbatim>\<open>NotImplementedError\<close> can be
  raised. The state is unchanged.
\<close>

theorem handle_unrecognised_command:
  "handle (SendEventCommand m opts) s = (Raised AttributeError, s)
   \<and> handle (AcknowledgeEventCommand m opts) s = (Raised AttributeError, s)
   \<and> handle (ConsumeEventsCommand es q l) s = (Raised AttributeError, s)"
  by (simp add: command_dunder_name_def)

section \<open>Properties of firing an event\<close>

lemma dict_len_card: "dict_len kw = card (fst ` set kw)"
  by (simp add: dict_len_def dict_keys_def length_remdups_card_conv)

lemma sort_dict_keys: "sort (dict_keys kw) = sorted_list_of_set (fst ` set kw)"
  using sorted_list_of_set_sort_remdups [of "map fst kw"] by (simp add: dict_keys_def)

lemma sort_parameter_names:
  "sort (remdups (map parameter_name ps)) = sorted_list_of_set (parameter_names ps)"
  using sorted_list_of_set_sort_remdups [of "map parameter_name ps"]
  by (simp add: parameter_names_def)

lemma send_event_not_arguments:
  "fst (send_event env others a name kw options s) \<noteq> Raised (InvalidEventArguments n k m p)"
  by (auto simp: send_event_def Let_def split: option.splits prod.splits bool.splits)

text \<open>
  Claim C4: for a call of \<^verbatim>\<open>fire_event\<close> on a registered API and an existing event
  (the lazy loader and the check of the name's syntax pass), if the set of the supplied
  keyword-argument names differs from the set of the declared parameter names, the call
  fails with \<^verbatim>\<open>InvalidEventArguments\<close>, which reports the number of supplied
  arguments, their sorted names, the number of declared parameters and their sorted
  names, and the state is unchanged; if the two sets are equal, no
  \<^verbatim>\<open>InvalidEventArguments\<close> is raised.
\<close>

theorem fire_event_arguments:
  assumes "lazy_load_now env = None"
    and "api_registry env an = Some a"
    and "validate_event_or_rpc_name env an ''event'' name"
    and "get_event a name = Some parameters"
  shows "if fst ` set (or_empty kwargs') \<noteq> parameter_names parameters
         then fire_event env others an name kwargs' options s =
                (Raised (InvalidEventArguments
                          (card (fst ` set (or_empty kwargs')))
                          (sorted_list_of_set (fst ` set (or_empty kwargs')))
                          (length parameters)
                          (sorted_list_of_set (parameter_names parameters))), s)
         else (\<forall>n k m p. fst (fire_event env others an name kwargs' options s)
                 \<noteq> Raised (InvalidEventArguments n k m p))"
proof -
  let ?kw = "or_empty kwargs'"
  have keys: "set (dict_keys ?kw) = fst ` set ?kw"
    by (simp add: dict_keys_def)
  have fire: "fire_event env others an name kwargs' options s =
      (case check_event_arguments ?kw parameters of
         Some e \<Rightarrow> (Raised e, s)
       | None \<Rightarrow> send_event env others a name ?kw options s)"
    using assms by (simp add: fire_event_def Let_def)
  show ?thesis
  proof (cases "fst ` set ?kw = parameter_names parameters")
    case True
    then have "check_event_arguments ?kw parameters = None"
      by (simp add: check_event_arguments_def keys)
    with True fire show ?thesis
      by (simp add: send_event_not_arguments)
  next
    case False
    then have "check_event_arguments ?kw parameters =
        Some (InvalidEventArguments (card (fst ` set ?kw)) (sorted_list_of_set (fst ` set ?kw))
               (length parameters) (sorted_list_of_set (parameter_names parameters)))"
      by (simp add: check_event_arguments_def keys dict_len_card sort_dict_keys
          sort_parameter_names)
    with False fire show ?thesis
      by simp
  qed
qed

text \<open>
  The scenario of the spec: \<^verbatim>\<open>{"order_id": 1, "extra": 2}\<close> against the declared
  parameter \<^verbatim>\<open>order_id\<close> reports the counts 2 and 1 and the two sorted sets.
\<close>

theorem fire_event_arguments_witness:
  "fire_event shop_env [] ''shop'' ''order_placed''
     (Some [(''order_id'', PyInt 1), (''extra'', PyInt 2)]) None initial =
   (Raised (InvalidEventArguments 2 [''extra'', ''order_id''] 1 [''order_id'']), initial)"
  using fire_event_arguments [of shop_env "''shop''" shop_api "''order_placed''"
      "[Parameter ''order_id'']" "Some [(''order_id'', PyInt 1), (''extra'', PyInt 2)]" "[]" None initial]
  by (simp add: shop_env_def shop_api_def or_empty_def parameter_names_def)

section \<open>What the steps of the channel leave alone\<close>

lemma step_frame:
  "hook_calls (step i s) = hook_calls s \<and> event_listeners (step i s) = event_listeners s
   \<and> next_queue (step i s) = next_queue s \<and> incoming_events (step i s) = incoming_events s"
  by (cases i)
    (auto simp: send_def consumer_loop_def handle_in_background_def task_finishes_def
      when_task_finished_def queue_exception_checker_def Let_def
      split: list.splits option.splits task_status.splits outcome.splits)

lemma run_frame:
  "hook_calls (run ins s) = hook_calls s \<and> event_listeners (run ins s) = event_listeners s
   \<and> next_queue (run ins s) = next_queue s \<and> incoming_events (run ins s) = incoming_events s"
  unfolding run_def by (induction ins arbitrary: s) (simp_all add: step_frame)

lemma run_hook_calls [simp]: "hook_calls (run ins s) = hook_calls s"
  by (simp add: run_frame)

lemma run_event_listeners [simp]: "event_listeners (run ins s) = event_listeners s"
  by (simp add: run_frame)

lemmas channel_defs = run_def send_def consumer_loop_def handle_in_background_def
  task_finishes_def when_task_finished_def queue_exception_checker_def wait_def is_set_def
  start_def initial_def

text \<open>
  Claim C7: firing \<^verbatim>\<open>shop.order_placed\<close> with \<^verbatim>\<open>{"order_id": 1}\<close> against the
  declared parameter \<^verbatim>\<open>order_id\<close>, and more generally every call of
  \<^verbatim>\<open>fire_event\<close> whose checks, validation and hooks pass: after the
  \<^verbatim>\<open>before_event_sent\<close> hook exactly one command, the \<^verbatim>\<open>SendEvent\<close> command
  carrying the constructed message, is put on the queue (state \<open>sent\<close>); the call then
  waits for the completion signal of that command; it runs the \<^verbatim>\<open>after_event_sent\<close>
  hook and returns only when the wait has ended, and then the signal is set; while it
  waits, and if the signal is never set, the \<^verbatim>\<open>after_event_sent\<close> hook has not run.
\<close>

theorem fire_event_sends_and_waits:
  assumes "lazy_load_now env = None"
    and "api_registry env an = Some a"
    and "validate_event_or_rpc_name env an ''event'' name"
    and "get_event a name = Some parameters"
    and "fst ` set (or_empty kwargs') = parameter_names parameters"
    and "validate_outgoing env m = None"
    and "hook env ''before_event_sent'' m = None"
    and "hook env ''after_event_sent'' m = None"
    and "m = \<lparr>api_name = meta_name a, event_name = name,
               kwargs = deform_to_bus env (or_empty kwargs'), version = meta_version a\<rparr>"
    and "sent = s\<lparr>hook_calls := hook_calls s @ [(''before_event_sent'', m)],
                 queue := queue s @ [(SendEventCommand m options, next_event s)],
                 unfinished_tasks := Suc (unfinished_tasks s),
                 next_event := Suc (next_event s)\<rparr>"
  shows "fire_event env others an name kwargs' options s =
           (if fst (wait (next_event s) others sent)
            then (Returned (),
                  (snd (wait (next_event s) others sent))
                    \<lparr>hook_calls := hook_calls s @ [(''before_event_sent'', m), (''after_event_sent'', m)]\<rparr>)
            else (Suspended, snd (wait (next_event s) others sent)))
         \<and> (fst (wait (next_event s) others sent)
              \<longrightarrow> is_set (next_event s) (snd (wait (next_event s) others sent)))
         \<and> hook_calls (snd (wait (next_event s) others sent)) = hook_calls s @ [(''before_event_sent'', m)]"
proof -
  let ?kw = "or_empty kwargs'"
  have "check_event_arguments ?kw parameters = None"
    using assms(5) by (simp add: check_event_arguments_def dict_keys_def)
  then have fire: "fire_event env others an name kwargs' options s =
      send_event env others a name ?kw options s"
    using assms(1-4) by (simp add: fire_event_def Let_def)
  have snd_send: "send_to_event_transports (SendEventCommand m options)
              (s\<lparr>hook_calls := hook_calls s @ [(''before_event_sent'', m)]\<rparr>) = (next_event s, sent)"
    by (simp add: send_to_event_transports_def send_def assms(10))
  have hc: "hook_calls (snd (wait (next_event s) others sent)) = hook_calls s @ [(''before_event_sent'', m)]"
    by (simp add: wait_def assms(10))
  have "send_event env others a name ?kw options s =
           (if fst (wait (next_event s) others sent)
            then (Returned (),
                  (snd (wait (next_event s) others sent))
                    \<lparr>hook_calls := hook_calls s @ [(''before_event_sent'', m), (''after_event_sent'', m)]\<rparr>)
            else (Suspended, snd (wait (next_event s) others sent)))"
  proof -
    obtain b s3 where w: "wait (next_event s) others sent = (b, s3)"
      by (cases "wait (next_event s) others sent")
    with hc have "hook_calls s3 = hook_calls s @ [(''before_event_sent'', m)]"
      by simp
    with assms(6-8) snd_send w show ?thesis
      by (simp add: send_event_def Let_def execute_hook_def flip: assms(9))
  qed
  moreover have "fst (wait (next_event s) others sent)
              \<longrightarrow> is_set (next_event s) (snd (wait (next_event s) others sent))"
    by (simp add: wait_def)
  ultimately show ?thesis using fire hc by simp
qed

text \<open>
  The scenario on a started client: when the consumer takes the command and its handler
  ends, the call returns after both hooks; when nobody handles the command, the call
  stays suspended with the one command on the queue and only the first hook run.
\<close>

theorem fire_event_sends_and_waits_witness:
  "fst (fire_event shop_env [ConsumerLoop, TaskFinishes 0 Succeeded] ''shop'' ''order_placed''
          (Some [(''order_id'', PyInt 1)]) None (start initial)) = Returned ()
   \<and> hook_calls (snd (fire_event shop_env [ConsumerLoop, TaskFinishes 0 Succeeded] ''shop''
          ''order_placed'' (Some [(''order_id'', PyInt 1)]) None (start initial))) =
       [(''before_event_sent'', order_placed), (''after_event_sent'', order_placed)]
   \<and> fire_event shop_env [] ''shop'' ''order_placed''
          (Some [(''order_id'', PyInt 1)]) None (start initial) =
       (Suspended,
        (start initial)\<lparr>hook_calls := [(''before_event_sent'', order_placed)],
                         queue := [(SendEventCommand order_placed None, 0)],
                         unfinished_tasks := 1, next_event := 1\<rparr>)"
  using fire_event_sends_and_waits [where env = shop_env and an = "''shop''" and a = shop_api
      and name = "''order_placed''" and parameters = "[Parameter ''order_id'']"
      and kwargs' = "Some [(''order_id'', PyInt 1)]" and m = order_placed
      and s = "start initial" and options = None
      and others = "[ConsumerLoop, TaskFinishes 0 Succeeded]"
      and sent = "(start initial)\<lparr>hook_calls := [(''before_event_sent'', order_placed)],
                         queue := [(SendEventCommand order_placed None, 0)],
                         unfinished_tasks := 1, next_event := 1\<rparr>"]
    fire_event_sends_and_waits [where env = shop_env and an = "''shop''" and a = shop_api
      and name = "''order_placed''" and parameters = "[Parameter ''order_id'']"
      and kwargs' = "Some [(''order_id'', PyInt 1)]" and m = order_placed
      and s = "start initial" and options = None
      and others = "[]"
      and sent = "(start initial)\<lparr>hook_calls := [(''before_event_sent'', order_placed)],
                         queue := [(SendEventCommand order_placed None, 0)],
                         unfinished_tasks := 1, next_event := 1\<rparr>"]
  by (simp add: shop_env_def shop_api_def order_placed_def or_empty_def parameter_names_def
      channel_defs)

section \<open>Properties of listening\<close>

lemma count_parameters_result:
  "count_parameters kinds (n, v) =
     (n + length (filter (\<lambda>k. k = POSITIONAL_ONLY \<or> k = POSITIONAL_OR_KEYWORD) kinds),
      v \<or> VAR_POSITIONAL \<in> set kinds)"
  by (induction kinds arbitrary: n v) auto

lemma sanity_check_listener_fails:
  "(sanity_check_listener listener = Some e) =
     (e = InvalidEventListener \<and>
      (case listener of
         NotCallable \<Rightarrow> True
       | Callable kinds \<Rightarrow>
           VAR_POSITIONAL \<notin> set kinds \<and> POSITIONAL_ONLY \<notin> set kinds
           \<and> POSITIONAL_OR_KEYWORD \<notin> set kinds))"
  by (cases listener)
    (auto simp: sanity_check_listener_def count_parameters_result filter_empty_conv)

lemma validate_events_fails:
  "(validate_events env events = Some e) =
     (e = InvalidName \<and> (\<exists>p \<in> set events. \<not> validate_event_or_rpc_name env (fst p) ''event'' (snd p)))"
  by (induction events) (auto split: if_splits)

lemma wait_frame:
  "event_listeners (snd (wait ev others s)) = event_listeners s"
  by (simp add: wait_def)

lemma wait_is_set: "fst (wait ev others s) \<Longrightarrow> is_set ev (snd (wait ev others s))"
  by (simp add: wait_def split: if_splits)

text \<open>
  Claim C9: \<^verbatim>\<open>listen\<close> is atomic with respect to the registration state. A call
  fails exactly when the listener fails the sanity check, or the name is already
  registered, or a name of the event list is invalid; a failing call leaves the whole
  state, and so the set of registered names, unchanged; a call that has not returned
  (it failed or it is still waiting) has not changed the set of registered names; and a
  call that has returned has added the name, and then the completion signal of its
  \<^verbatim>\<open>ConsumeEvents\<close> command is set. The sanity check fails exactly for a listener
  that is not callable or that has neither a positional parameter nor variable positional
  arguments; the validation of the events fails exactly when the check of one of the names
  does.
\<close>

theorem listen_atomic:
  "(fst (listen env others events listener listener_name options s) = Raised e) =
     (sanity_check_listener listener = Some e
      \<or> sanity_check_listener listener = None \<and> listener_name \<in> event_listeners s
          \<and> e = ListenerAlreadyRegistered listener_name
      \<or> sanity_check_listener listener = None \<and> listener_name \<notin> event_listeners s
          \<and> validate_events env events = Some e)
   \<and> (fst (listen env others events listener listener_name options s) = Raised e
        \<longrightarrow> snd (listen env others events listener listener_name options s) = s)
   \<and> (fst (listen env others events listener listener_name options s) \<noteq> Returned ()
        \<longrightarrow> event_listeners (snd (listen env others events listener listener_name options s))
              = event_listeners s)
   \<and> (fst (listen env others events listener listener_name options s) = Returned ()
        \<longrightarrow> event_listeners (snd (listen env others events listener listener_name options s))
              = insert listener_name (event_listeners s)
            \<and> is_set (next_event s)
                 (snd (listen env others events listener listener_name options s)))
   \<and> (sanity_check_listener listener = Some e) =
       (e = InvalidEventListener \<and>
        (case listener of
           NotCallable \<Rightarrow> True
         | Callable kinds \<Rightarrow>
             VAR_POSITIONAL \<notin> set kinds \<and> POSITIONAL_ONLY \<notin> set kinds
             \<and> POSITIONAL_OR_KEYWORD \<notin> set kinds))
   \<and> (validate_events env events = Some e) =
       (e = InvalidName
        \<and> (\<exists>p \<in> set events. \<not> validate_event_or_rpc_name env (fst p) ''event'' (snd p)))"
proof -
  note chars = sanity_check_listener_fails [of listener e] validate_events_fails [of env events e]
  let ?r = "listen env others events listener listener_name options s"
  let ?sent = "snd (send (ConsumeEventsCommand events (next_queue s) listener_name)
                 (s\<lparr>next_queue := Suc (next_queue s)\<rparr>))"
  show ?thesis
  proof (cases "sanity_check_listener listener")
    case (Some x)
    then have "?r = (Raised x, s)"
      by (simp add: listen_def)
    with Some chars show ?thesis by auto
  next
    case None
    show ?thesis
    proof (cases "listener_name \<in> event_listeners s")
      case True
      with None have "?r = (Raised (ListenerAlreadyRegistered listener_name), s)"
        by (simp add: listen_def)
      with None True chars show ?thesis by auto
    next
      case False
      show ?thesis
      proof (cases "validate_events env events")
        case (Some x)
        with None False have "?r = (Raised x, s)"
          by (simp add: listen_def)
        with None False Some chars show ?thesis by auto
      next
        case ok: None
        obtain b s3 where w: "wait (next_event s) others ?sent = (b, s3)"
          by (cases "wait (next_event s) others ?sent")
        have el: "event_listeners s3 = event_listeners s"
          using wait_frame [of "next_event s" others ?sent] w by (simp add: send_def)
        have st: "b \<Longrightarrow> is_set (next_event s) s3"
          using wait_is_set [of "next_event s" others ?sent] w by simp
        have r: "?r = (if b then (Returned (),
                    s3\<lparr>event_listeners := insert listener_name (event_listeners s3)\<rparr>)
                  else (Suspended, s3))"
          using None False ok w by (simp add: listen_def Let_def send_def)
        show ?thesis
        proof (cases b)
          case True
          with r el st None \<open>listener_name \<notin> event_listeners s\<close> ok chars show ?thesis
            by (simp add: is_set_def)
        next
          case False
          with r el None \<open>listener_name \<notin> event_listeners s\<close> ok chars show ?thesis
            by simp
        qed
      qed
    qed
  qed
qed

text \<open>
  A listener with only a keyword-only parameter and an event with an empty name are
  refused with the state unchanged; a valid call whose command nobody handles stays
  suspended and registers nothing.
\<close>

theorem listen_atomic_witness:
  "listen shop_env [] [(''shop'', ''order_placed'')] (Callable [KEYWORD_ONLY]) ''L1'' None initial
     = (Raised InvalidEventListener, initial)
   \<and> listen shop_env [] [(''shop'', [])] (Callable [POSITIONAL_ONLY]) ''L1'' None initial
     = (Raised InvalidName, initial)
   \<and> fst (listen shop_env [] [(''shop'', ''order_placed'')] (Callable [POSITIONAL_ONLY]) ''L1''
            None initial) = Suspended
   \<and> event_listeners (snd (listen shop_env [] [(''shop'', ''order_placed'')]
            (Callable [POSITIONAL_ONLY]) ''L1'' None initial)) = {}"
  using listen_atomic [of shop_env "[]" "[(''shop'', ''order_placed'')]" "Callable [KEYWORD_ONLY]"
      "''L1''" None initial InvalidEventListener]
    listen_atomic [of shop_env "[]" "[(''shop'', [])]" "Callable [POSITIONAL_ONLY]"
      "''L1''" None initial InvalidName]
  by (simp add: listen_def sanity_check_listener_def shop_env_def channel_defs)

lemma handled_sets_signal:
  assumes "consumer_task s" and "queue s = []"
    and "sent = s\<lparr>next_queue := Suc (next_queue s),
                    queue := queue s @ [(c, next_event s)],
                    unfinished_tasks := Suc (unfinished_tasks s),
                    next_event := Suc (next_event s)\<rparr>"
  shows "is_set (next_event s) (run [ConsumerLoop, TaskFinishes (next_task s) out] sent)"
  using assms(1,2)
  by (cases out)
    (simp_all add: assms(3) run_def consumer_loop_def handle_in_background_def
      task_finishes_def when_task_finished_def queue_exception_checker_def is_set_def Let_def)

text \<open>
  Claim C5: calling \<^verbatim>\<open>listen\<close> with a name that is already registered always fails
  and registers nothing (the state is unchanged), and for a listener that passes the
  sanity check the error is the registration error; calling it with a name not yet
  registered, a valid listener and a valid event list returns and adds the name to the
  registered set, provided the completion signal of its \<^verbatim>\<open>ConsumeEvents\<close> command
  (put on the queue in state \<open>sent\<close>) is set while the call waits; and the signal is set
  when a running consumer with an empty queue takes the command and its handler ends,
  however it ends.
\<close>

theorem listen_unique_names:
  assumes "sent = s\<lparr>next_queue := Suc (next_queue s),
                    queue := queue s
                      @ [(ConsumeEventsCommand events (next_queue s) listener_name, next_event s)],
                    unfinished_tasks := Suc (unfinished_tasks s),
                    next_event := Suc (next_event s)\<rparr>"
  shows "(listener_name \<in> event_listeners s \<longrightarrow>
            (\<exists>e. listen env others events listener listener_name options s = (Raised e, s))
            \<and> (sanity_check_listener listener = None \<longrightarrow>
                 listen env others events listener listener_name options s
                   = (Raised (ListenerAlreadyRegistered listener_name), s)))
       \<and> (listener_name \<notin> event_listeners s \<and> sanity_check_listener listener = None
            \<and> validate_events env events = None
            \<and> is_set (next_event s) (run others sent) \<longrightarrow>
            fst (listen env others events listener listener_name options s) = Returned ()
            \<and> event_listeners (snd (listen env others events listener listener_name options s))
                = insert listener_name (event_listeners s))
       \<and> (consumer_task s \<and> queue s = [] \<longrightarrow>
            is_set (next_event s) (run [ConsumerLoop, TaskFinishes (next_task s) out] sent))"
proof (intro conjI impI)
  assume dup: "listener_name \<in> event_listeners s"
  show "\<exists>e. listen env others events listener listener_name options s = (Raised e, s)"
    using dup by (cases "sanity_check_listener listener") (simp_all add: listen_def)
  show "listen env others events listener listener_name options s
      = (Raised (ListenerAlreadyRegistered listener_name), s)"
    if "sanity_check_listener listener = None"
    using dup that by (simp add: listen_def)
next
  assume a: "listener_name \<notin> event_listeners s \<and> sanity_check_listener listener = None
    \<and> validate_events env events = None \<and> is_set (next_event s) (run others sent)"
  then have w: "wait (next_event s) others sent
      = (True, if is_set (next_event s) sent then sent else run others sent)"
    by (simp add: wait_def)
  have el: "event_listeners (if is_set (next_event s) sent then sent else run others sent)
      = event_listeners s"
    by (simp add: assms)
  have r: "listen env others events listener listener_name options s =
      (Returned (), (if is_set (next_event s) sent then sent else run others sent)
         \<lparr>event_listeners := insert listener_name (event_listeners s)\<rparr>)"
    using a w el by (simp add: listen_def Let_def send_def flip: assms)
  show "fst (listen env others events listener listener_name options s) = Returned ()"
    by (simp add: r)
  show "event_listeners (snd (listen env others events listener listener_name options s))
      = insert listener_name (event_listeners s)"
    by (simp add: r)
next
  assume "consumer_task s \<and> queue s = []"
  then show "is_set (next_event s) (run [ConsumerLoop, TaskFinishes (next_task s) out] sent)"
    using handled_sets_signal [OF _ _ assms, of out] by simp
qed

lemma listen_L1_result:
  "listen_L1 =
     (Returned (),
      (start initial)
        \<lparr>next_queue := 1, unfinished_tasks := 0, next_event := 1, set_calls := (\<lambda>e. 0)(0 := 1),
         tasks := [0 \<mapsto> \<lparr>task_command = ConsumeEventsCommand [(''shop'', ''order_placed'')] 0 ''L1'',
                            on_done = 0, status = Done Succeeded\<rparr>],
         next_task := 1, event_listeners := {''L1''}\<rparr>)"
  by (simp add: listen_L1_def listen_def sanity_check_listener_def shop_env_def channel_defs)

text \<open>
  \<^verbatim>\<open>L1\<close> is registered on a started client, and a second registration under the
  same name is refused.
\<close>

theorem listen_unique_names_witness:
  "fst listen_L1 = Returned ()
   \<and> event_listeners (snd listen_L1) = {''L1''}
   \<and> listen shop_env [] [(''shop'', ''order_placed'')] (Callable [POSITIONAL_OR_KEYWORD]) ''L1''
         None (snd listen_L1)
       = (Raised (ListenerAlreadyRegistered ''L1''), snd listen_L1)"
  using listen_unique_names [where listener = "Callable [POSITIONAL_OR_KEYWORD]"
      and s = "start initial" and events = "[(''shop'', ''order_placed'')]"
      and listener_name = "''L1''" and env = shop_env and options = None
      and others = "[ConsumerLoop, TaskFinishes 0 Succeeded]"
      and sent = "(start initial)\<lparr>next_queue := 1,
                    queue := [(ConsumeEventsCommand [(''shop'', ''order_placed'')] 0 ''L1'', 0)],
                    unfinished_tasks := 1, next_event := 1\<rparr>"]
    listen_unique_names [where listener = "Callable [POSITIONAL_OR_KEYWORD]"
      and s = "snd listen_L1" and events = "[(''shop'', ''order_placed'')]"
      and listener_name = "''L1''" and env = shop_env and options = None
      and others = "[]"
      and sent = "(snd listen_L1)\<lparr>next_queue := Suc (next_queue (snd listen_L1)),
                    queue := queue (snd listen_L1)
                      @ [(ConsumeEventsCommand [(''shop'', ''order_placed'')]
                            (next_queue (snd listen_L1)) ''L1'', next_event (snd listen_L1))],
                    unfinished_tasks := Suc (unfinished_tasks (snd listen_L1)),
                    next_event := Suc (next_event (snd listen_L1))\<rparr>"]
  by (simp add: listen_L1_def sanity_check_listener_def shop_env_def channel_defs)

section \<open>Properties of the inbound dispatch\<close>

text \<open>
  Claim C2, evaluated on the code: after \<^verbatim>\<open>L1\<close> has been registered by
  \<^verbatim>\<open>listen\<close> for \<^verbatim>\<open>[("shop", "order_placed")]\<close>, delivering a
  \<^verbatim>\<open>ReceiveEvent\<close> command for \<^verbatim>\<open>L1\<close> raises \<^verbatim>\<open>TypeError\<close>, from the
  subscript on the set of names; the message is not put on the intake queue of the
  listener, and no command is on the queue of the producer.
\<close>

theorem receive_event_for_registered_listener:
  "fst listen_L1 = Returned ()
   \<and> ''L1'' \<in> event_listeners (snd listen_L1)
   \<and> handle (ReceiveEventCommand order_placed ''L1'') (snd listen_L1)
       = (Raised TypeError, snd listen_L1)
   \<and> incoming_events (snd listen_L1) 0 = []
   \<and> queue (snd listen_L1) = []"
  by (simp add: listen_L1_result handle_receive_event_def set_getitem_def start_def initial_def)

section \<open>Properties of the command channel\<close>

lemma inv_start_initial: "channel_inv (start initial)"
  by (simp add: channel_inv_def done_signal_def start_def initial_def)

lemma inv_finite: "channel_inv s \<Longrightarrow> finite (running_commands s)"
  unfolding channel_inv_def by fast

lemma inv_running:
  "channel_inv s \<Longrightarrow> (t \<in> running_commands s) = (\<exists>k. tasks s t = Some k \<and> status k = Pending)"
  unfolding channel_inv_def by blast

lemma inv_unfinished:
  "channel_inv s \<Longrightarrow> unfinished_tasks s = length (queue s) + card (running_commands s)"
  unfolding channel_inv_def by fast

lemma inv_task_bounds:
  "channel_inv s \<Longrightarrow> tasks s t = Some k \<Longrightarrow> t < next_task s \<and> on_done k < next_event s"
  unfolding channel_inv_def by blast

lemma inv_task_signal:
  "channel_inv s \<Longrightarrow> tasks s t = Some k \<Longrightarrow> tasks s t' = Some k'
     \<Longrightarrow> on_done k = on_done k' \<Longrightarrow> t = t'"
  unfolding channel_inv_def by blast

lemma inv_queue:
  "channel_inv s \<Longrightarrow> p \<in> set (queue s) \<Longrightarrow>
     snd p < next_event s \<and> (\<forall>t k. tasks s t = Some k \<longrightarrow> on_done k \<noteq> snd p)"
  unfolding channel_inv_def by blast

lemma inv_distinct: "channel_inv s \<Longrightarrow> distinct (map snd (queue s))"
  unfolding channel_inv_def by fast

lemma inv_set_calls:
  "channel_inv s \<Longrightarrow> set_calls s e = (if done_signal s e then 1 else 0)"
  unfolding channel_inv_def by fast

lemma channel_invI:
  assumes "finite (running_commands s)"
    and "\<And>t. (t \<in> running_commands s) = (\<exists>k. tasks s t = Some k \<and> status k = Pending)"
    and "unfinished_tasks s = length (queue s) + card (running_commands s)"
    and "\<And>t k. tasks s t = Some k \<Longrightarrow> t < next_task s \<and> on_done k < next_event s"
    and "\<And>t t' k k'. tasks s t = Some k \<Longrightarrow> tasks s t' = Some k'
           \<Longrightarrow> on_done k = on_done k' \<Longrightarrow> t = t'"
    and "\<And>p t k. p \<in> set (queue s) \<Longrightarrow> snd p < next_event s"
    and "\<And>p t k. p \<in> set (queue s) \<Longrightarrow> tasks s t = Some k \<Longrightarrow> on_done k \<noteq> snd p"
    and "distinct (map snd (queue s))"
    and "\<And>e. set_calls s e = (if done_signal s e then 1 else 0)"
  shows "channel_inv s"
  unfolding channel_inv_def using assms by blast

lemma inv_send:
  assumes "channel_inv s"
  shows "channel_inv (snd (send c s))"
proof (rule channel_invI)
  let ?s = "snd (send c s)"
  show "finite (running_commands ?s)"
    using inv_finite [OF assms] by (simp add: send_def)
  show "(t \<in> running_commands ?s) = (\<exists>k. tasks ?s t = Some k \<and> status k = Pending)" for t
    using inv_running [OF assms] by (simp add: send_def)
  show "unfinished_tasks ?s = length (queue ?s) + card (running_commands ?s)"
    using inv_unfinished [OF assms] by (simp add: send_def)
  show "t < next_task ?s \<and> on_done k < next_event ?s" if "tasks ?s t = Some k" for t k
    using inv_task_bounds [OF assms, of t k] that by (simp add: send_def less_Suc_eq)
  show "t = t'" if "tasks ?s t = Some k" "tasks ?s t' = Some k'" "on_done k = on_done k'"
    for t t' k k'
    using inv_task_signal [OF assms, of t k t' k'] that by (simp add: send_def)
  show "snd p < next_event ?s" if "p \<in> set (queue ?s)" for p
    using inv_queue [OF assms, of p] that by (auto simp: send_def less_Suc_eq)
  show "on_done k \<noteq> snd p" if "p \<in> set (queue ?s)" "tasks ?s t = Some k" for p t k
    using inv_queue [OF assms, of p] inv_task_bounds [OF assms, of t k] that
    by (auto simp: send_def)
  have "next_event s \<notin> snd ` set (queue s)"
    using inv_queue [OF assms] by fastforce
  then show "distinct (map snd (queue ?s))"
    using inv_distinct [OF assms] by (simp add: send_def)
  show "set_calls ?s e = (if done_signal ?s e then 1 else 0)" for e
    using inv_set_calls [OF assms, of e] by (simp add: send_def done_signal_def)
qed

lemma inv_next_task_free: "channel_inv s \<Longrightarrow> tasks s (next_task s) = None"
  using inv_task_bounds [of s "next_task s"] by (cases "tasks s (next_task s)") auto

lemma inv_handle_in_background:
  assumes "channel_inv s" and "queue s = (c, ev) # rest"
  shows "channel_inv (handle_in_background c ev (s\<lparr>queue := rest\<rparr>))"
proof (rule channel_invI)
  let ?s = "handle_in_background c ev (s\<lparr>queue := rest\<rparr>)"
  note free = inv_next_task_free [OF assms(1)]
  have fresh: "next_task s \<notin> running_commands s"
    using inv_running [OF assms(1), of "next_task s"] free by simp
  show "finite (running_commands ?s)"
    using inv_finite [OF assms(1)] by (simp add: handle_in_background_def)
  show "(t \<in> running_commands ?s) = (\<exists>k. tasks ?s t = Some k \<and> status k = Pending)" for t
    using inv_running [OF assms(1), of t] by (simp add: handle_in_background_def)
  show "unfinished_tasks ?s = length (queue ?s) + card (running_commands ?s)"
    using inv_unfinished [OF assms(1)] inv_finite [OF assms(1)] fresh assms(2)
    by (simp add: handle_in_background_def)
  have ev: "ev < next_event s" "\<And>t k. tasks s t = Some k \<Longrightarrow> on_done k \<noteq> ev"
    using inv_queue [OF assms(1), of "(c, ev)"] assms(2) by auto
  show "t < next_task ?s \<and> on_done k < next_event ?s" if "tasks ?s t = Some k" for t k
    using inv_task_bounds [OF assms(1), of t k] that ev(1)
    by (auto simp: handle_in_background_def less_Suc_eq split: if_splits)
  show "t = t'" if "tasks ?s t = Some k" "tasks ?s t' = Some k'" "on_done k = on_done k'"
    for t t' k k'
    using inv_task_signal [OF assms(1), of t k t' k'] that ev(2) [of t k] ev(2) [of t' k']
    by (auto simp: handle_in_background_def split: if_splits)
  show "snd p < next_event ?s" if "p \<in> set (queue ?s)" for p
    using inv_queue [OF assms(1), of p] that assms(2) by (simp add: handle_in_background_def)
  have rest: "ev \<notin> snd ` set rest" "distinct (map snd rest)"
    using inv_distinct [OF assms(1)] assms(2) by auto
  show "on_done k \<noteq> snd p" if "p \<in> set (queue ?s)" "tasks ?s t = Some k" for p t k
    using inv_queue [OF assms(1), of p] that assms(2) rest(1)
    by (auto simp: handle_in_background_def split: if_splits)
  show "distinct (map snd (queue ?s))"
    using rest(2) by (simp add: handle_in_background_def)
  have "done_signal ?s e = done_signal s e" for e
  proof
    assume "done_signal ?s e"
    then obtain t k out where "tasks ?s t = Some k" "on_done k = e" "status k = Done out"
      unfolding done_signal_def by blast
    then have "tasks s t = Some k"
      by (auto simp: handle_in_background_def split: if_splits)
    with \<open>on_done k = e\<close> \<open>status k = Done out\<close> show "done_signal s e"
      unfolding done_signal_def by blast
  next
    assume "done_signal s e"
    then obtain t k out where tk: "tasks s t = Some k" "on_done k = e" "status k = Done out"
      unfolding done_signal_def by blast
    with free have "t \<noteq> next_task s" by auto
    with tk have "tasks ?s t = Some k"
      by (simp add: handle_in_background_def)
    with tk show "done_signal ?s e"
      unfolding done_signal_def by blast
  qed
  then show "set_calls ?s e = (if done_signal ?s e then 1 else 0)" for e
    using inv_set_calls [OF assms(1), of e] by (simp add: handle_in_background_def)
qed

lemma inv_consumer_loop: "channel_inv s \<Longrightarrow> channel_inv (consumer_loop s)"
  by (auto simp: consumer_loop_def inv_handle_in_background split: list.splits)

lemma task_finishes_idle:
  "tasks s t = None \<or> (\<exists>k out'. tasks s t = Some k \<and> status k = Done out')
     \<Longrightarrow> task_finishes t out s = s"
  by (auto simp: task_finishes_def)

lemma task_finishes_pending:
  assumes "channel_inv s" and "tasks s t = Some k" and "status k = Pending"
  shows "task_finishes t out s =
           s\<lparr>tasks := (tasks s)(t \<mapsto> k\<lparr>status := Done out\<rparr>),
             error_queue := error_queue (queue_exception_checker out s),
             running_commands := running_commands s - {t},
             unfinished_tasks := unfinished_tasks s - 1,
             set_calls := (set_calls s)(on_done k := Suc (set_calls s (on_done k)))\<rparr>"
proof -
  have run: "t \<in> running_commands s"
    using inv_running [OF assms(1), of t] assms(2,3) by simp
  then have "0 < card (running_commands s)"
    using inv_finite [OF assms(1)] by (auto simp: card_gt_0_iff)
  then have "unfinished_tasks s \<noteq> 0"
    using inv_unfinished [OF assms(1)] by simp
  with run assms(2,3) show ?thesis
    by (cases out)
      (simp_all add: task_finishes_def when_task_finished_def queue_exception_checker_def Let_def)
qed

lemma inv_task_finishes:
  assumes "channel_inv s"
  shows "channel_inv (task_finishes t out s)"
proof (cases "\<exists>k. tasks s t = Some k \<and> status k = Pending")
  case False
  then have "tasks s t = None \<or> (\<exists>k out'. tasks s t = Some k \<and> status k = Done out')"
    by (cases "tasks s t") (auto intro: task_status.exhaust)
  then show ?thesis
    using assms by (simp add: task_finishes_idle)
next
  case True
  then obtain k where k: "tasks s t = Some k" "status k = Pending"
    by blast
  let ?s = "task_finishes t out s"
  note eq = task_finishes_pending [OF assms k, of out]
  have run: "t \<in> running_commands s"
    using inv_running [OF assms, of t] k by simp
  have fin: "finite (running_commands s)"
    by (rule inv_finite [OF assms])
  have not_done: "\<not> done_signal s (on_done k)"
  proof
    assume "done_signal s (on_done k)"
    then obtain t' k' out' where d: "tasks s t' = Some k'" "on_done k' = on_done k"
      "status k' = Done out'"
      unfolding done_signal_def by blast
    with inv_task_signal [OF assms, of t' k' t k] k have "t' = t" by simp
    with d k show False by simp
  qed
  have done': "done_signal ?s e = (e = on_done k \<or> done_signal s e)" for e
  proof
    assume "done_signal ?s e"
    then obtain t' k' out' where d: "tasks ?s t' = Some k'" "on_done k' = e"
      "status k' = Done out'"
      unfolding done_signal_def by blast
    show "e = on_done k \<or> done_signal s e"
    proof (cases "t' = t")
      case True
      with d have "k' = k\<lparr>status := Done out\<rparr>" by (simp add: eq)
      with d show ?thesis by simp
    next
      case False
      with d have "tasks s t' = Some k'" by (simp add: eq)
      with d show ?thesis unfolding done_signal_def by blast
    qed
  next
    assume "e = on_done k \<or> done_signal s e"
    then show "done_signal ?s e"
    proof
      assume "e = on_done k"
      then have "tasks ?s t = Some (k\<lparr>status := Done out\<rparr>) \<and>
          on_done (k\<lparr>status := Done out\<rparr>) = e \<and> status (k\<lparr>status := Done out\<rparr>) = Done out"
        by (simp add: eq)
      then show ?thesis unfolding done_signal_def by blast
    next
      assume "done_signal s e"
      then obtain t' k' out' where d: "tasks s t' = Some k'" "on_done k' = e"
        "status k' = Done out'"
        unfolding done_signal_def by blast
      with k have "t' \<noteq> t" by auto
      with d have "tasks ?s t' = Some k'" by (simp add: eq)
      with d show ?thesis unfolding done_signal_def by blast
    qed
  qed
  show ?thesis
  proof (rule channel_invI)
    show "finite (running_commands ?s)"
      using fin by (simp add: eq)
    show "(u \<in> running_commands ?s) = (\<exists>j. tasks ?s u = Some j \<and> status j = Pending)" for u
      using inv_running [OF assms, of u] by (auto simp: eq)
    have "0 < card (running_commands s)"
      using fin run by (auto simp: card_gt_0_iff)
    then show "unfinished_tasks ?s = length (queue ?s) + card (running_commands ?s)"
      using inv_unfinished [OF assms] fin run by (simp add: eq card_Diff_singleton)
    show "u < next_task ?s \<and> on_done j < next_event ?s" if "tasks ?s u = Some j" for u j
    proof (cases "u = t")
      case True
      with that have "j = k\<lparr>status := Done out\<rparr>" by (simp add: eq)
      with True inv_task_bounds [OF assms k(1)] show ?thesis by (simp add: eq)
    next
      case False
      with that have "tasks s u = Some j" by (simp add: eq)
      with inv_task_bounds [OF assms, of u j] show ?thesis by (simp add: eq)
    qed
    show "u = u'"
      if hyp: "tasks ?s u = Some j" "tasks ?s u' = Some j'" "on_done j = on_done j'"
      for u u' j j'
    proof -
      have sig: "\<exists>i. tasks s v = Some i \<and> on_done i = on_done h" if "tasks ?s v = Some h" for v h
        using that k(1) by (cases "v = t") (auto simp: eq)
      obtain i where i: "tasks s u = Some i" "on_done i = on_done j"
        using sig [OF hyp(1)] by blast
      obtain i' where i': "tasks s u' = Some i'" "on_done i' = on_done j'"
        using sig [OF hyp(2)] by blast
      show ?thesis
        using inv_task_signal [OF assms i(1) i'(1)] i(2) i'(2) hyp(3) by simp
    qed
    show "snd p < next_event ?s" if "p \<in> set (queue ?s)" for p
      using inv_queue [OF assms, of p] that by (simp add: eq)
    show "on_done j \<noteq> snd p" if "p \<in> set (queue ?s)" "tasks ?s u = Some j" for p u j
    proof -
      have "\<exists>i. tasks s u = Some i \<and> on_done i = on_done j"
        using that(2) k(1) by (cases "u = t") (auto simp: eq)
      moreover have "p \<in> set (queue s)"
        using that(1) by (simp add: eq)
      ultimately show ?thesis
        using inv_queue [OF assms, of p] by auto
    qed
    show "distinct (map snd (queue ?s))"
      using inv_distinct [OF assms] by (simp add: eq)
    show "set_calls ?s e = (if done_signal ?s e then 1 else 0)" for e
    proof -
      have "set_calls ?s e = (if e = on_done k then Suc (set_calls s (on_done k)) else set_calls s e)"
        by (simp add: eq)
      with inv_set_calls [OF assms, of e] inv_set_calls [OF assms, of "on_done k"] not_done
      show ?thesis
        by (simp add: done')
    qed
  qed
qed

lemma inv_step: "channel_inv s \<Longrightarrow> channel_inv (step i s)"
  by (cases i) (simp_all add: inv_send inv_consumer_loop inv_task_finishes)

lemma inv_run: "channel_inv s \<Longrightarrow> channel_inv (run ins s)"
  unfolding run_def by (induction ins arbitrary: s) (simp_all add: inv_step)

lemma inv_reachable: "channel_inv (run ins (start initial))"
  by (rule inv_run [OF inv_start_initial])

lemma inv_is_set_task:
  assumes "channel_inv s" and "tasks s t = Some k"
  shows "is_set (on_done k) s = (status k \<noteq> Pending)"
proof -
  have "done_signal s (on_done k) = (status k \<noteq> Pending)"
  proof
    assume "done_signal s (on_done k)"
    then obtain t' k' out where d: "tasks s t' = Some k'" "on_done k' = on_done k"
      "status k' = Done out"
      unfolding done_signal_def by blast
    with inv_task_signal [OF assms(1) d(1) assms(2)] assms(2) show "status k \<noteq> Pending"
      by auto
  next
    assume "status k \<noteq> Pending"
    then obtain out where "status k = Done out"
      by (cases "status k") auto
    with assms(2) show "done_signal s (on_done k)"
      unfolding done_signal_def by blast
  qed
  then show ?thesis
    using inv_set_calls [OF assms(1), of "on_done k"] by (simp add: is_set_def)
qed

lemma inv_fresh_event_unset:
  assumes "channel_inv s" and "next_event s \<le> e"
  shows "\<not> is_set e s"
proof -
  have "\<not> done_signal s e"
    using inv_task_bounds [OF assms(1)] assms(2) unfolding done_signal_def by fastforce
  then show ?thesis
    using inv_set_calls [OF assms(1), of e] by (simp add: is_set_def)
qed

lemma step_sets_signal:
  assumes "channel_inv s" and "\<not> is_set e s" and "is_set e (step i s)"
  shows "\<exists>t k out. i = TaskFinishes t out \<and> tasks s t = Some k \<and> on_done k = e
           \<and> status k = Pending \<and> tasks (step i s) t = Some (k\<lparr>status := Done out\<rparr>)
           \<and> t \<in> running_commands s
           \<and> running_commands (step i s) = running_commands s - {t}
           \<and> Suc (unfinished_tasks (step i s)) = unfinished_tasks s"
proof (cases i)
  case (Send c)
  with assms(2,3) show ?thesis by (simp add: send_def is_set_def)
next
  case ConsumerLoop
  have "set_calls (consumer_loop s) = set_calls s"
    by (simp add: consumer_loop_def handle_in_background_def split: list.splits)
  with ConsumerLoop assms(2,3) show ?thesis
    by (simp add: is_set_def)
next
  case (TaskFinishes t out)
  show ?thesis
  proof (cases "\<exists>k. tasks s t = Some k \<and> status k = Pending")
    case False
    then have "tasks s t = None \<or> (\<exists>k out'. tasks s t = Some k \<and> status k = Done out')"
      by (cases "tasks s t") (auto intro: task_status.exhaust)
    then have "step i s = s"
      using TaskFinishes by (simp add: task_finishes_idle)
    with assms(2,3) show ?thesis by simp
  next
    case True
    then obtain k where k: "tasks s t = Some k" "status k = Pending"
      by blast
    note eq = task_finishes_pending [OF assms(1) k, of out]
    have run: "t \<in> running_commands s"
      using inv_running [OF assms(1), of t] k by simp
    then have "0 < card (running_commands s)"
      using inv_finite [OF assms(1)] by (auto simp: card_gt_0_iff)
    then have pos: "0 < unfinished_tasks s"
      using inv_unfinished [OF assms(1)] by simp
    have "e = on_done k"
      using assms(2,3) TaskFinishes by (simp add: eq is_set_def split: if_splits)
    with k run pos TaskFinishes show ?thesis
      by (simp add: eq)
  qed
qed

text \<open>
  Claim C1: in every state \<open>s\<close> that a started client reaches by any sequence of
  \<^verbatim>\<open>send\<close> calls, turns of the consumer loop and endings of handlers (successful,
  with an exception, or cancelled), \<^verbatim>\<open>set()\<close> has been called at most once on every
  completion signal; a signal is set exactly when the handler of its command has ended,
  so never before; the signal that \<^verbatim>\<open>send\<close> returns is not set; and a step that
  sets a signal is the end of the handler of the task of that signal, and in this same
  step the task leaves the running set and the queue's counter of unfinished items goes
  down by one.
\<close>

theorem completion_signal_once:
  assumes "s = run ins (start initial)"
  shows "set_calls s e \<le> 1
       \<and> is_set e s = (\<exists>t k out. tasks s t = Some k \<and> on_done k = e \<and> status k = Done out)
       \<and> (\<forall>t k. tasks s t = Some k \<longrightarrow> is_set (on_done k) s = (status k \<noteq> Pending))
       \<and> \<not> is_set (fst (send c s)) s
       \<and> (\<not> is_set e s \<and> is_set e (step i s) \<longrightarrow>
            (\<exists>t k out. i = TaskFinishes t out \<and> tasks s t = Some k \<and> on_done k = e
               \<and> status k = Pending \<and> tasks (step i s) t = Some (k\<lparr>status := Done out\<rparr>)
               \<and> t \<in> running_commands s
               \<and> running_commands (step i s) = running_commands s - {t}
               \<and> Suc (unfinished_tasks (step i s)) = unfinished_tasks s))"
proof -
  have inv: "channel_inv s"
    unfolding assms by (rule inv_run [OF inv_start_initial])
  have "set_calls s e \<le> 1"
    using inv_set_calls [OF inv, of e] by simp
  moreover have "is_set e s = (\<exists>t k out. tasks s t = Some k \<and> on_done k = e \<and> status k = Done out)"
    using inv_set_calls [OF inv, of e] by (simp add: is_set_def done_signal_def)
  moreover have "\<forall>t k. tasks s t = Some k \<longrightarrow> is_set (on_done k) s = (status k \<noteq> Pending)"
    using inv_is_set_task [OF inv] by blast
  moreover have "\<not> is_set (fst (send c s)) s"
    using inv_fresh_event_unset [OF inv, of "next_event s"] by (simp add: send_def)
  moreover have "\<not> is_set e s \<and> is_set e (step i s) \<longrightarrow>
            (\<exists>t k out. i = TaskFinishes t out \<and> tasks s t = Some k \<and> on_done k = e
               \<and> status k = Pending \<and> tasks (step i s) t = Some (k\<lparr>status := Done out\<rparr>)
               \<and> t \<in> running_commands s
               \<and> running_commands (step i s) = running_commands s - {t}
               \<and> Suc (unfinished_tasks (step i s)) = unfinished_tasks s)"
    using step_sets_signal [OF inv, of e i] by blast
  ultimately show ?thesis by blast
qed

text \<open>
  One command is sent and taken by the consumer; its signal is not set while the handler
  runs; when the handler raises, the signal is set, the running set is empty and the queue
  has no unfinished item; a second ending of the same task does not set the signal again.
\<close>

theorem completion_signal_once_witness:
  "\<not> is_set 0 (run [Send (SendEventCommand order_placed None), ConsumerLoop] (start initial))
   \<and> running_commands (run [Send (SendEventCommand order_placed None), ConsumerLoop]
        (start initial)) = {0}
   \<and> is_set 0 (run [Send (SendEventCommand order_placed None), ConsumerLoop,
        TaskFinishes 0 (Failed ''boom'')] (start initial))
   \<and> running_commands (run [Send (SendEventCommand order_placed None), ConsumerLoop,
        TaskFinishes 0 (Failed ''boom'')] (start initial)) = {}
   \<and> unfinished_tasks (run [Send (SendEventCommand order_placed None), ConsumerLoop,
        TaskFinishes 0 (Failed ''boom'')] (start initial)) = 0
   \<and> set_calls (run [Send (SendEventCommand order_placed None), ConsumerLoop,
        TaskFinishes 0 (Failed ''boom''), TaskFinishes 0 Succeeded] (start initial)) 0 = 1"
  using completion_signal_once [of
      "run [Send (SendEventCommand order_placed None), ConsumerLoop] (start initial)"
      "[Send (SendEventCommand order_placed None), ConsumerLoop]" 0
      "SendEventCommand order_placed None" "TaskFinishes 0 (Failed ''boom'')"]
  by (simp add: channel_defs)

section \<open>Properties of stopping the consumer\<close>

lemma no_new_tasks_refl: "\<not> consumer_task s \<Longrightarrow> no_new_tasks s s"
  by (simp add: no_new_tasks_def)

lemma no_new_tasks_trans:
  "no_new_tasks a b \<Longrightarrow> no_new_tasks b c \<Longrightarrow> no_new_tasks a c"
  unfolding no_new_tasks_def by auto

lemma no_new_tasks_step:
  assumes "\<not> consumer_task s"
  shows "no_new_tasks s (step i s)"
proof (cases i)
  case (Send c)
  with assms show ?thesis by (simp add: no_new_tasks_def send_def)
next
  case ConsumerLoop
  with assms show ?thesis by (simp add: no_new_tasks_def consumer_loop_def)
next
  case (TaskFinishes t out)
  show ?thesis
  proof (cases "tasks s t")
    case None
    with TaskFinishes assms show ?thesis
      by (simp add: no_new_tasks_def task_finishes_def)
  next
    case (Some k)
    show ?thesis
    proof (cases "status k")
      case (Done out')
      with Some TaskFinishes assms show ?thesis
        by (simp add: no_new_tasks_def task_finishes_def)
    next
      case Pending
      have "consumer_task (task_finishes t out s) = consumer_task s
          \<and> next_task (task_finishes t out s) = next_task s
          \<and> tasks (task_finishes t out s) = (tasks s)(t \<mapsto> k\<lparr>status := Done out\<rparr>)"
        using Some Pending
        by (cases out)
          (simp_all add: task_finishes_def when_task_finished_def queue_exception_checker_def
            Let_def)
      with Some Pending TaskFinishes assms show ?thesis
        by (auto simp: no_new_tasks_def)
    qed
  qed
qed

lemma no_new_tasks_run:
  "\<not> consumer_task s \<Longrightarrow> no_new_tasks s (run ins s)"
proof (induction ins arbitrary: s)
  case Nil
  then show ?case by (simp add: run_def no_new_tasks_refl)
next
  case (Cons i ins)
  have a: "no_new_tasks s (step i s)"
    by (rule no_new_tasks_step [OF Cons.prems])
  then have "\<not> consumer_task (step i s)"
    by (simp add: no_new_tasks_def)
  then have "no_new_tasks (step i s) (run ins (step i s))"
    by (rule Cons.IH)
  with a show ?case
    by (simp add: run_def no_new_tasks_trans)
qed

lemma slept_step: "slept (step i s) = slept s"
  by (cases i)
    (auto simp: send_def consumer_loop_def handle_in_background_def task_finishes_def
      when_task_finished_def queue_exception_checker_def Let_def
      split: list.splits option.splits task_status.splits outcome.splits)

lemma slept_run: "slept (run ins s) = slept s"
  unfolding run_def by (induction ins arbitrary: s) (simp_all add: slept_step)

lemma inv_slept: "channel_inv (s\<lparr>slept := x\<rparr>) = channel_inv s"
  by (simp add: channel_inv_def done_signal_def)

lemma no_new_tasks_slept: "no_new_tasks s (s\<lparr>slept := x\<rparr>) = (\<not> consumer_task s)"
  by (auto simp: no_new_tasks_def)

lemma sleep_props:
  assumes "channel_inv s" and "\<not> consumer_task s"
  shows "channel_inv (sleep delay others s)"
    and "no_new_tasks s (sleep delay others s)"
    and "slept (sleep delay others s) = slept s + delay"
proof -
  let ?s = "s\<lparr>slept := slept s + delay\<rparr>"
  show "channel_inv (sleep delay others s)"
    unfolding sleep_def using assms(1) by (simp add: inv_run inv_slept)
  have "no_new_tasks s ?s"
    using assms(2) by (simp add: no_new_tasks_slept)
  moreover have "no_new_tasks ?s (run others ?s)"
    using assms(2) by (simp add: no_new_tasks_run)
  ultimately show "no_new_tasks s (sleep delay others s)"
    unfolding sleep_def by (rule no_new_tasks_trans)
  show "slept (sleep delay others s) = slept s + delay"
    by (simp add: sleep_def slept_run)
qed

lemma drain_props:
  assumes "channel_inv s" and "\<not> consumer_task s" and "0 \<le> delay"
  shows "channel_inv (drain n delay while_sleeping i s)
       \<and> no_new_tasks s (drain n delay while_sleeping i s)
       \<and> slept (drain n delay while_sleeping i s) \<le> slept s + of_nat n * delay"
  using assms(1,2)
proof (induction n arbitrary: i s)
  case 0
  then show ?case by (simp add: no_new_tasks_refl)
next
  case (Suc n)
  let ?s = "if running_commands s \<noteq> {} then sleep delay (while_sleeping i) s else s"
  have inv: "channel_inv ?s"
    using Suc.prems sleep_props(1) by simp
  have nn: "no_new_tasks s ?s"
    using Suc.prems sleep_props(2) by (simp add: no_new_tasks_refl)
  then have stopped: "\<not> consumer_task ?s"
    by (simp add: no_new_tasks_def)
  have sl: "slept ?s \<le> slept s + delay"
    using Suc.prems sleep_props(3) [of s delay "while_sleeping i"] assms(3) by simp
  note ih = Suc.IH [OF inv stopped, of "Suc i"]
  have "slept (drain n delay while_sleeping (Suc i) ?s) \<le> slept s + of_nat (Suc n) * delay"
    using ih sl by (simp add: algebra_simps)
  moreover have "no_new_tasks s (drain n delay while_sleeping (Suc i) ?s)"
    using nn ih by (blast intro: no_new_tasks_trans)
  moreover have "channel_inv (drain n delay while_sleeping (Suc i) ?s)"
    using ih by blast
  ultimately show ?case
    by simp
qed

lemma cancel_run: "cancel ts s = run (map (\<lambda>t. TaskFinishes t Cancelled) ts) s"
  unfolding cancel_def run_def by (induction ts arbitrary: s) simp_all

lemma task_finishes_other_task: "t \<noteq> u \<Longrightarrow> tasks (task_finishes u out s) t = tasks s t"
  by (cases out)
    (auto simp: task_finishes_def when_task_finished_def queue_exception_checker_def Let_def
      split: option.splits task_status.splits)

lemma cancel_pending:
  assumes "channel_inv s" and "\<not> consumer_task s" and "t \<in> set ts"
    and "tasks s t = Some k" and "status k = Pending"
  shows "tasks (cancel ts s) t = Some (k\<lparr>status := Done Cancelled\<rparr>)"
  using assms
proof (induction ts arbitrary: s)
  case Nil
  then show ?case by simp
next
  case (Cons u ts)
  let ?s = "task_finishes u Cancelled s"
  have inv: "channel_inv ?s"
    by (rule inv_task_finishes [OF Cons.prems(1)])
  have "no_new_tasks s (step (TaskFinishes u Cancelled) s)"
    by (rule no_new_tasks_step [OF Cons.prems(2)])
  then have stopped: "\<not> consumer_task ?s"
    by (simp add: no_new_tasks_def)
  have split: "cancel (u # ts) s = cancel ts ?s"
    by (simp add: cancel_def)
  show ?case
  proof (cases "u = t")
    case True
    have "tasks ?s t = Some (k\<lparr>status := Done Cancelled\<rparr>)"
      using task_finishes_pending [OF Cons.prems(1,4,5), of Cancelled] True by simp
    moreover have "no_new_tasks ?s (cancel ts ?s)"
      unfolding cancel_run by (rule no_new_tasks_run [OF stopped])
    ultimately show ?thesis
      unfolding split no_new_tasks_def by simp
  next
    case False
    then have "t \<in> set ts" and "tasks ?s t = Some k"
      using Cons.prems(3,4) by (simp_all add: task_finishes_other_task)
    then show ?thesis
      unfolding split using Cons.IH [OF inv stopped] Cons.prems(5) by simp
  qed
qed

lemma inv_consumer_task: "channel_inv (s\<lparr>consumer_task := b\<rparr>) = channel_inv s"
  by (simp add: channel_inv_def done_signal_def)

lemma stop_drain_props:
  assumes "channel_inv s" and "0 \<le> wait_seconds"
  shows "channel_inv (stop_drain wait_seconds while_cancelling while_sleeping s)
       \<and> no_new_tasks s (stop_drain wait_seconds while_cancelling while_sleeping s)
       \<and> slept (stop_drain wait_seconds while_cancelling while_sleeping s)
            \<le> slept s + wait_seconds"
proof -
  let ?c = "if consumer_task s then run while_cancelling (s\<lparr>consumer_task := False\<rparr>) else s"
  have inv: "channel_inv ?c"
    using assms(1) by (simp add: inv_run inv_consumer_task)
  have "no_new_tasks s (s\<lparr>consumer_task := False\<rparr>)"
    by (simp add: no_new_tasks_def)
  moreover have "no_new_tasks (s\<lparr>consumer_task := False\<rparr>)
      (run while_cancelling (s\<lparr>consumer_task := False\<rparr>))"
    by (rule no_new_tasks_run) simp
  ultimately have nn: "no_new_tasks s ?c"
    by (auto intro: no_new_tasks_trans no_new_tasks_refl)
  then have stopped: "\<not> consumer_task ?c"
    by (simp add: no_new_tasks_def)
  have sl: "slept ?c = slept s"
    by (simp add: slept_run)
  have d: "channel_inv (drain 100 (wait_seconds / 100) while_sleeping 0 ?c)
       \<and> no_new_tasks ?c (drain 100 (wait_seconds / 100) while_sleeping 0 ?c)
       \<and> slept (drain 100 (wait_seconds / 100) while_sleeping 0 ?c)
            \<le> slept ?c + of_nat 100 * (wait_seconds / 100)"
    by (rule drain_props [OF inv stopped]) (simp add: assms(2))
  then have "no_new_tasks s (drain 100 (wait_seconds / 100) while_sleeping 0 ?c)"
    using nn by (blast intro: no_new_tasks_trans)
  with d sl show ?thesis
    by (simp add: stop_drain_def)
qed

lemma stop_cancels_running:
  assumes "channel_inv s" and "0 \<le> wait_seconds"
    and "drained = stop_drain wait_seconds while_cancelling while_sleeping s"
    and "stopped = stop wait_seconds while_cancelling while_sleeping s"
  shows "\<not> consumer_task drained \<and> \<not> consumer_task stopped
       \<and> dom (tasks drained) = dom (tasks s) \<and> dom (tasks stopped) = dom (tasks s)
       \<and> dom (tasks (run ins stopped)) = dom (tasks s)
       \<and> (\<forall>t k. tasks drained t = Some k \<and> status k \<noteq> Pending \<longrightarrow>
              t \<notin> running_commands drained \<and> tasks stopped t = Some k)
       \<and> (\<forall>t. t \<in> running_commands drained \<longrightarrow>
              (\<exists>k. tasks drained t = Some k \<and> status k = Pending
                 \<and> tasks stopped t = Some (k\<lparr>status := Done Cancelled\<rparr>)))
       \<and> running_commands stopped = {}
       \<and> slept stopped \<le> slept s + wait_seconds"
proof -
  let ?ts = "sorted_list_of_set (running_commands drained)"
  let ?c = "cancel ?ts drained"
  have st: "stopped = ?c\<lparr>running_commands := {}\<rparr>"
    by (simp add: assms(3,4) stop_def Let_def)
  have d: "channel_inv drained" "no_new_tasks s drained" "slept drained \<le> slept s + wait_seconds"
    using stop_drain_props [OF assms(1,2), of while_cancelling while_sleeping]
    by (simp_all add: assms(3))
  have d_stopped: "\<not> consumer_task drained"
    using d(2) by (simp add: no_new_tasks_def)
  have c: "no_new_tasks drained ?c"
    unfolding cancel_run by (rule no_new_tasks_run [OF d_stopped])
  have sc: "no_new_tasks s ?c"
    by (rule no_new_tasks_trans [OF d(2) c])
  have ts: "set ?ts = running_commands drained"
    using inv_finite [OF d(1)] by simp
  have a: "\<not> consumer_task stopped" "dom (tasks stopped) = dom (tasks s)"
    using sc by (simp_all add: st no_new_tasks_def)
  have "no_new_tasks stopped (run ins stopped)"
    by (rule no_new_tasks_run [OF a(1)])
  then have after: "dom (tasks (run ins stopped)) = dom (tasks s)"
    using a(2) by (simp add: no_new_tasks_def)
  have b: "t \<notin> running_commands drained \<and> tasks stopped t = Some k"
    if "tasks drained t = Some k" "status k \<noteq> Pending" for t k
    using that c inv_running [OF d(1), of t] by (simp add: st no_new_tasks_def)
  have cc: "\<exists>k. tasks drained t = Some k \<and> status k = Pending
      \<and> tasks stopped t = Some (k\<lparr>status := Done Cancelled\<rparr>)"
    if running: "t \<in> running_commands drained" for t
  proof -
    obtain k where k: "tasks drained t = Some k" "status k = Pending"
      using inv_running [OF d(1), of t] running by blast
    have "tasks ?c t = Some (k\<lparr>status := Done Cancelled\<rparr>)"
      using cancel_pending [OF d(1) d_stopped _ k, of ?ts] running ts by simp
    with k show ?thesis by (simp add: st)
  qed
  have sl: "slept stopped \<le> slept s + wait_seconds"
    using d(3) by (simp add: st cancel_run slept_run)
  show ?thesis
    using d_stopped a after b cc sl d(2) by (simp add: st no_new_tasks_def)
qed

lemma endings_append: "endings t (xs @ ys) = endings t xs @ endings t ys"
  by (induction t xs rule: endings.induct) simp_all

lemma task_finishes_status:
  "tasks s t = Some k \<Longrightarrow> status k = Pending \<Longrightarrow>
     tasks (task_finishes t out s) = (tasks s)(t \<mapsto> k\<lparr>status := Done out\<rparr>)"
  by (cases out)
    (simp_all add: task_finishes_def when_task_finished_def queue_exception_checker_def Let_def)

lemma run_Cons: "run (i # ins) s = run ins (step i s)"
  by (simp add: run_def)

lemma run_pending_status:
  assumes "\<not> consumer_task s" and "tasks s t = Some k" and "status k = Pending"
  shows "tasks (run ins s) t =
           Some (k\<lparr>status := (case endings t ins of [] \<Rightarrow> Pending | out # outs \<Rightarrow> Done out)\<rparr>)"
  using assms
proof (induction ins arbitrary: s)
  case Nil
  then show ?case by (simp add: run_def)
next
  case (Cons i ins)
  have nn: "no_new_tasks s (step i s)"
    by (rule no_new_tasks_step [OF Cons.prems(1)])
  then have stopped: "\<not> consumer_task (step i s)"
    by (simp add: no_new_tasks_def)
  show ?case
  proof (cases "\<exists>out. i = TaskFinishes t out")
    case True
    then obtain out where i: "i = TaskFinishes t out"
      by blast
    have "tasks (step i s) t = Some (k\<lparr>status := Done out\<rparr>)"
      using task_finishes_status [OF Cons.prems(2,3), of out] i by simp
    moreover have "no_new_tasks (step i s) (run ins (step i s))"
      by (rule no_new_tasks_run [OF stopped])
    ultimately have "tasks (run ins (step i s)) t = Some (k\<lparr>status := Done out\<rparr>)"
      unfolding no_new_tasks_def by simp
    then show ?thesis
      by (simp add: run_Cons i)
  next
    case False
    have same: "tasks (step i s) t = Some k"
    proof (cases i)
      case (Send c)
      then show ?thesis using Cons.prems(2) by (simp add: send_def)
    next
      case ConsumerLoop
      then show ?thesis using Cons.prems(1,2) by (simp add: consumer_loop_def)
    next
      case (TaskFinishes u out)
      with False have "t \<noteq> u" by auto
      then show ?thesis
        using TaskFinishes Cons.prems(2) by (simp add: task_finishes_other_task)
    qed
    have "endings t (i # ins) = endings t ins"
      using False by (cases i) auto
    then show ?thesis
      using Cons.IH [OF stopped same Cons.prems(3)] by (simp add: run_Cons)
  qed
qed

lemma drain_no_new_tasks:
  assumes "channel_inv s" and "\<not> consumer_task s"
  shows "channel_inv (drain n delay while_sleeping i s)
       \<and> no_new_tasks s (drain n delay while_sleeping i s)"
  using assms
proof (induction n arbitrary: i s)
  case 0
  then show ?case by (simp add: no_new_tasks_refl)
next
  case (Suc n)
  let ?s = "if running_commands s \<noteq> {} then sleep delay (while_sleeping i) s else s"
  have inv: "channel_inv ?s"
    using Suc.prems sleep_props(1) by simp
  have nn: "no_new_tasks s ?s"
    using Suc.prems sleep_props(2) by (simp add: no_new_tasks_refl)
  then have stopped: "\<not> consumer_task ?s"
    by (simp add: no_new_tasks_def)
  note ih = Suc.IH [OF inv stopped, of "Suc i"]
  have "no_new_tasks s (drain n delay while_sleeping (Suc i) ?s)"
    using nn ih by (blast intro: no_new_tasks_trans)
  moreover have "channel_inv (drain n delay while_sleeping (Suc i) ?s)"
    using ih by blast
  ultimately show ?case
    by simp
qed

lemma drain_pending_status:
  assumes "channel_inv s" and "\<not> consumer_task s"
    and "tasks s t = Some k" and "status k = Pending"
  shows "tasks (drain n delay while_sleeping i s) t =
           Some (k\<lparr>status :=
                   (case endings t (concat (map while_sleeping [i..<i + n])) of
                      [] \<Rightarrow> Pending
                    | out # outs \<Rightarrow> Done out)\<rparr>)
       \<and> (endings t (concat (map while_sleeping [i..<i + n])) = [] \<longrightarrow>
            slept (drain n delay while_sleeping i s) = slept s + of_nat n * delay)"
  using assms
proof (induction n arbitrary: i s)
  case 0
  then show ?case by simp
next
  case (Suc n)
  let ?s = "sleep delay (while_sleeping i) s"
  let ?rest = "concat (map while_sleeping [Suc i..<Suc i + n])"
  have upt: "[i..<i + Suc n] = i # [Suc i..<Suc i + n]"
    by (simp add: upt_rec)
  have sched: "endings t (concat (map while_sleeping [i..<i + Suc n])) =
      endings t (while_sleeping i) @ endings t ?rest"
    by (subst upt) (simp add: endings_append)
  have "t \<in> running_commands s"
    using inv_running [OF Suc.prems(1), of t] Suc.prems(3,4) by blast
  then have unfold: "drain (Suc n) delay while_sleeping i s =
      drain n delay while_sleeping (Suc i) ?s"
    by auto
  have inv: "channel_inv ?s" and nn: "no_new_tasks s ?s" and sl: "slept ?s = slept s + delay"
    using sleep_props [OF Suc.prems(1,2), of delay "while_sleeping i"] by simp_all
  have stopped: "\<not> consumer_task ?s"
    using nn by (simp add: no_new_tasks_def)
  have "\<not> consumer_task (s\<lparr>slept := slept s + delay\<rparr>)"
    and "tasks (s\<lparr>slept := slept s + delay\<rparr>) t = Some k"
    using Suc.prems(2,3) by simp_all
  then have first: "tasks ?s t =
      Some (k\<lparr>status := (case endings t (while_sleeping i) of
                             [] \<Rightarrow> Pending | out # outs \<Rightarrow> Done out)\<rparr>)"
    unfolding sleep_def using Suc.prems(4) by (rule run_pending_status)
  show ?case
  proof (cases "endings t (while_sleeping i)")
    case Nil
    with first Suc.prems(4) have still: "tasks ?s t = Some k"
      by simp
    note ih = Suc.IH [OF inv stopped still Suc.prems(4), of "Suc i"]
    show ?thesis
      unfolding unfold sched Nil using ih sl by (simp add: algebra_simps)
  next
    case (Cons out outs)
    with first have ended: "tasks ?s t = Some (k\<lparr>status := Done out\<rparr>)"
      by simp
    have "no_new_tasks ?s (drain n delay while_sleeping (Suc i) ?s)"
      using drain_no_new_tasks [OF inv stopped] by blast
    then have "tasks (drain n delay while_sleeping (Suc i) ?s) t = Some (k\<lparr>status := Done out\<rparr>)"
      using ended unfolding no_new_tasks_def by simp
    then show ?thesis
      unfolding unfold sched Cons by simp
  qed
qed

lemma stop_drain_pending_status:
  assumes "channel_inv s" and "tasks s t = Some k" and "status k = Pending"
  shows "tasks (stop_drain wait_seconds while_cancelling while_sleeping s) t =
           Some (k\<lparr>status :=
                   (case endings t (stop_schedule (consumer_task s) while_cancelling while_sleeping) of
                      [] \<Rightarrow> Pending
                    | out # outs \<Rightarrow> Done out)\<rparr>)
       \<and> (endings t (stop_schedule (consumer_task s) while_cancelling while_sleeping) = [] \<longrightarrow>
            slept (stop_drain wait_seconds while_cancelling while_sleeping s)
              = slept s + wait_seconds)"
proof -
  let ?c = "if consumer_task s then run while_cancelling (s\<lparr>consumer_task := False\<rparr>) else s"
  let ?before = "if consumer_task s then while_cancelling else []"
  let ?polls = "concat (map while_sleeping [0..<0 + 100])"
  let ?d = "drain 100 (wait_seconds / 100) while_sleeping 0 ?c"
  have inv: "channel_inv ?c"
    using assms(1) by (simp add: inv_run inv_consumer_task)
  have stopped: "\<not> consumer_task ?c"
    using no_new_tasks_run [of "s\<lparr>consumer_task := False\<rparr>" while_cancelling]
    by (simp add: no_new_tasks_def)
  have sl: "slept ?c = slept s"
    by (simp add: slept_run)
  have "tasks (run while_cancelling (s\<lparr>consumer_task := False\<rparr>)) t =
      Some (k\<lparr>status := (case endings t while_cancelling of
                             [] \<Rightarrow> Pending | out # outs \<Rightarrow> Done out)\<rparr>)"
    by (rule run_pending_status) (simp_all add: assms(2,3))
  then have first: "tasks ?c t =
      Some (k\<lparr>status := (case endings t ?before of [] \<Rightarrow> Pending | out # outs \<Rightarrow> Done out)\<rparr>)"
    using assms(2,3) by simp
  have sched: "endings t (stop_schedule (consumer_task s) while_cancelling while_sleeping) =
      endings t ?before @ endings t ?polls"
    by (simp add: stop_schedule_def endings_append)
  have d: "stop_drain wait_seconds while_cancelling while_sleeping s = ?d"
    by (simp add: stop_drain_def)
  show ?thesis
  proof (cases "endings t ?before")
    case Nil
    with first assms(3) have still: "tasks ?c t = Some k"
      by simp
    note p = drain_pending_status [OF inv stopped still assms(3),
        of 100 "wait_seconds / 100" while_sleeping 0]
    show ?thesis
      unfolding d sched Nil using p sl by simp
  next
    case (Cons out outs)
    with first have ended: "tasks ?c t = Some (k\<lparr>status := Done out\<rparr>)"
      by simp
    have "no_new_tasks ?c ?d"
      using drain_no_new_tasks [OF inv stopped] by blast
    then have "tasks ?d t = Some (k\<lparr>status := Done out\<rparr>)"
      using ended unfolding no_new_tasks_def by simp
    then show ?thesis
      unfolding d sched Cons by simp
  qed
qed

text \<open>
  Claim C3: \<^verbatim>\<open>stop(wait_seconds=W)\<close> on a well-formed state (every state that a
  started client reaches is one, by \<open>inv_reachable\<close>), with \<open>drained\<close> the state at the
  end of the polling loop, \<open>stopped\<close> the state when \<^verbatim>\<open>stop\<close> returns, and
  \<open>schedule\<close> what the rest of the system does while \<^verbatim>\<open>stop\<close> awaits the
  cancellation of the consumer loop and during the sleeps of the hundred polls, whatever
  that is.
  (a) The consumer loop is cancelled first and is not running during the polling, the
  cancellation of the tasks or afterwards, and no handler is started: the tasks are the
  same ones at the end of the polling, when \<^verbatim>\<open>stop\<close> returns, and after any further
  steps. (b) A handler that was running when \<^verbatim>\<open>stop\<close> began and that the schedule
  ends before the hundred polls are over is not cancelled by \<^verbatim>\<open>stop\<close>: when
  \<^verbatim>\<open>stop\<close> returns, its task is done with the outcome of its first ending in the
  schedule. (c) A handler that was running when \<^verbatim>\<open>stop\<close> began and that the
  schedule does not end is cancelled, after \<^verbatim>\<open>stop\<close> has slept for \<^verbatim>\<open>W\<close>
  exactly, a hundred times \<^verbatim>\<open>W / 100\<close>; and every task that is in the running set
  at the end of the polling is pending and is cancelled, while one that has ended by then
  is not in the running set and is left as it ended. (d) When \<^verbatim>\<open>stop\<close> returns the
  running set is empty. In no case does \<^verbatim>\<open>stop\<close> sleep for more than \<^verbatim>\<open>W\<close>.
\<close>

theorem stop_guarantees:
  assumes "channel_inv s" and "0 \<le> wait_seconds"
    and "drained = stop_drain wait_seconds while_cancelling while_sleeping s"
    and "stopped = stop wait_seconds while_cancelling while_sleeping s"
    and "schedule = stop_schedule (consumer_task s) while_cancelling while_sleeping"
  shows "\<not> consumer_task drained \<and> \<not> consumer_task stopped
       \<and> dom (tasks drained) = dom (tasks s) \<and> dom (tasks stopped) = dom (tasks s)
       \<and> dom (tasks (run ins stopped)) = dom (tasks s)
       \<and> (\<forall>t k. tasks s t = Some k \<and> status k = Pending \<longrightarrow>
              tasks drained t =
                Some (k\<lparr>status := (case endings t schedule of
                                        [] \<Rightarrow> Pending | out # outs \<Rightarrow> Done out)\<rparr>)
              \<and> tasks stopped t =
                Some (k\<lparr>status := (case endings t schedule of
                                        [] \<Rightarrow> Done Cancelled | out # outs \<Rightarrow> Done out)\<rparr>)
              \<and> (endings t schedule = [] \<longrightarrow> slept stopped = slept s + wait_seconds))
       \<and> (\<forall>t k. tasks drained t = Some k \<and> status k \<noteq> Pending \<longrightarrow>
              t \<notin> running_commands drained \<and> tasks stopped t = Some k)
       \<and> (\<forall>t. t \<in> running_commands drained \<longrightarrow>
              (\<exists>k. tasks drained t = Some k \<and> status k = Pending
                 \<and> tasks stopped t = Some (k\<lparr>status := Done Cancelled\<rparr>)))
       \<and> running_commands stopped = {}
       \<and> slept stopped \<le> slept s + wait_seconds"
proof -
  note old = stop_cancels_running [OF assms(1-4), of ins]
  have sl: "slept stopped = slept drained"
    by (simp add: assms(3,4) stop_def Let_def cancel_run slept_run)
  have new: "tasks drained t =
                Some (k\<lparr>status := (case endings t schedule of
                                        [] \<Rightarrow> Pending | out # outs \<Rightarrow> Done out)\<rparr>)
              \<and> tasks stopped t =
                Some (k\<lparr>status := (case endings t schedule of
                                        [] \<Rightarrow> Done Cancelled | out # outs \<Rightarrow> Done out)\<rparr>)
              \<and> (endings t schedule = [] \<longrightarrow> slept stopped = slept s + wait_seconds)"
    if pending: "tasks s t = Some k" "status k = Pending" for t k
  proof -
    note p = stop_drain_pending_status [OF assms(1) pending,
        of wait_seconds while_cancelling while_sleeping, folded assms(3,5)]
    show ?thesis
    proof (cases "endings t schedule")
      case Nil
      with p pending(2) have d: "tasks drained t = Some k" "slept drained = slept s + wait_seconds"
        by simp_all
      have "t \<in> running_commands drained"
        using inv_running [of drained t] d(1) pending(2)
          stop_drain_props [OF assms(1,2), of while_cancelling while_sleeping]
        by (auto simp: assms(3))
      with old d(1) have "tasks stopped t = Some (k\<lparr>status := Done Cancelled\<rparr>)"
        by auto
      with Nil d sl pending(2) show ?thesis
        by simp
    next
      case (Cons out outs)
      with p have d: "tasks drained t = Some (k\<lparr>status := Done out\<rparr>)"
        by simp
      with old have "tasks stopped t = Some (k\<lparr>status := Done out\<rparr>)"
        by auto
      with Cons d show ?thesis
        by simp
    qed
  qed
  show ?thesis
    using old new by blast
qed

lemma two_running_eval:
  "two_running =
     (start initial)
       \<lparr>unfinished_tasks := 2, next_event := 2,
        running_commands := {0, 1},
        tasks := [0 \<mapsto> \<lparr>task_command = SendEventCommand order_placed None, on_done = 0,
                          status = Pending\<rparr>,
                  1 \<mapsto> \<lparr>task_command = AcknowledgeEventCommand order_placed None,
                          on_done = 1, status = Pending\<rparr>],
        next_task := 2\<rparr>"
  by (simp add: two_running_def channel_defs insert_commute)

lemma drain_idle:
  "(\<And>j. i \<le> j \<Longrightarrow> while_sleeping j = []) \<Longrightarrow>
     drain n delay while_sleeping i s =
       (if running_commands s \<noteq> {} then s\<lparr>slept := slept s + of_nat n * delay\<rparr> else s)"
proof (induction n arbitrary: i s)
  case 0
  then show ?case by simp
next
  case (Suc n)
  have "while_sleeping i = []"
    using Suc.prems by simp
  moreover have "drain n delay while_sleeping (Suc i) t =
      (if running_commands t \<noteq> {} then t\<lparr>slept := slept t + of_nat n * delay\<rparr> else t)" for t
    by (rule Suc.IH) (simp add: Suc.prems)
  ultimately show ?case
    by (simp add: sleep_def run_def algebra_simps)
qed

lemma inv_two_running: "channel_inv two_running"
  unfolding two_running_def by (rule inv_run [OF inv_start_initial])

lemma stop_drain_two_running:
  "stop_drain 1 [] first_ends two_running =
     two_running
       \<lparr>consumer_task := False, slept := 1, unfinished_tasks := 1, running_commands := {1},
        set_calls := (\<lambda>e. 0)(0 := 1),
        tasks := [0 \<mapsto> \<lparr>task_command = SendEventCommand order_placed None, on_done = 0,
                          status = Done Succeeded\<rparr>,
                  1 \<mapsto> \<lparr>task_command = AcknowledgeEventCommand order_placed None,
                          on_done = 1, status = Pending\<rparr>]\<rparr>"
proof -
  have idle: "drain 99 (1 / 100) first_ends (Suc 0) t =
      (if running_commands t \<noteq> {} then t\<lparr>slept := slept t + of_nat 99 * (1 / 100)\<rparr> else t)" for t
    by (rule drain_idle) (simp add: first_ends_def)
  have "drain 100 (1 / 100) first_ends 0 t =
      drain 99 (1 / 100) first_ends (Suc 0)
        (if running_commands t \<noteq> {} then sleep (1 / 100) (first_ends 0) t else t)" for t
    using drain.simps(2) [of 99 "1 / 100" first_ends 0 t] by simp
  then show ?thesis
    by (simp add: stop_drain_def idle two_running_eval sleep_def first_ends_def
        channel_defs fun_upd_twist)
qed

lemma stop_two_running:
  "stop 1 [] first_ends two_running =
     two_running
       \<lparr>consumer_task := False, slept := 1, unfinished_tasks := 0, running_commands := {},
        set_calls := (\<lambda>e. 0)(0 := 1, 1 := 1),
        tasks := [0 \<mapsto> \<lparr>task_command = SendEventCommand order_placed None, on_done = 0,
                          status = Done Succeeded\<rparr>,
                  1 \<mapsto> \<lparr>task_command = AcknowledgeEventCommand order_placed None,
                          on_done = 1, status = Done Cancelled\<rparr>]\<rparr>"
proof -
  have idle: "drain 99 (1 / 100) first_ends (Suc 0) t =
      (if running_commands t \<noteq> {} then t\<lparr>slept := slept t + of_nat 99 * (1 / 100)\<rparr> else t)" for t
    by (rule drain_idle) (simp add: first_ends_def)
  have "drain 100 (1 / 100) first_ends 0 t =
      drain 99 (1 / 100) first_ends (Suc 0)
        (if running_commands t \<noteq> {} then sleep (1 / 100) (first_ends 0) t else t)" for t
    using drain.simps(2) [of 99 "1 / 100" first_ends 0 t] by simp
  then show ?thesis
    by (simp add: stop_def stop_drain_def idle two_running_eval sleep_def first_ends_def
        cancel_def channel_defs fun_upd_twist)
qed

lemma endings_idle:
  "(\<And>j. j \<in> set js \<Longrightarrow> ws j = []) \<Longrightarrow> endings t (concat (map ws js)) = []"
  by (induction js) simp_all

lemma schedule_first_ends:
  "endings t (stop_schedule True [] first_ends) = (if t = 0 then [Succeeded] else [])"
proof -
  have "[0..<100] = 0 # [1..<100]"
    by (simp add: upt_rec)
  moreover have "endings u (concat (map first_ends [1..<100])) = []" for u
    by (rule endings_idle) (simp add: first_ends_def)
  ultimately show ?thesis
    by (simp add: stop_schedule_def endings_append first_ends_def)
qed

text \<open>
  With the tasks 0 and 1 running, task 0 ends during the first sleep and is left as it
  ended; task 1 is still running after the hundred polls and is cancelled; the running
  set is empty, the consumer loop is cancelled, and \<^verbatim>\<open>stop(1)\<close> has slept for 1.
\<close>

theorem stop_guarantees_witness:
  "\<not> consumer_task (stop 1 [] first_ends two_running)
   \<and> running_commands (stop_drain 1 [] first_ends two_running) = {1}
   \<and> tasks (stop 1 [] first_ends two_running) 0 =
       Some \<lparr>task_command = SendEventCommand order_placed None, on_done = 0,
             status = Done Succeeded\<rparr>
   \<and> tasks (stop 1 [] first_ends two_running) 1 =
       Some \<lparr>task_command = AcknowledgeEventCommand order_placed None, on_done = 1,
             status = Done Cancelled\<rparr>
   \<and> running_commands (stop 1 [] first_ends two_running) = {}
   \<and> slept (stop 1 [] first_ends two_running) = 1"
proof -
  let ?stopped = "stop 1 [] first_ends two_running"
  let ?schedule = "stop_schedule (consumer_task two_running) [] first_ends"
  have nonneg: "(0::rat) \<le> 1"
    by simp
  have loop: "consumer_task two_running"
    by (simp add: two_running_eval start_def initial_def)
  note g = stop_guarantees [OF inv_two_running nonneg refl refl refl,
      where while_cancelling = "[]" and while_sleeping = first_ends and ins = "[]"]
  have pend: "tasks ?stopped t =
        Some (k\<lparr>status := (case endings t ?schedule of
                                [] \<Rightarrow> Done Cancelled | out # outs \<Rightarrow> Done out)\<rparr>)
      \<and> (endings t ?schedule = [] \<longrightarrow> slept ?stopped = slept two_running + 1)"
    if "tasks two_running t = Some k" and "status k = Pending" for t k
    using g that by blast
  have zero: "tasks two_running 0 =
      Some \<lparr>task_command = SendEventCommand order_placed None, on_done = 0, status = Pending\<rparr>"
    and one: "tasks two_running 1 =
      Some \<lparr>task_command = AcknowledgeEventCommand order_placed None, on_done = 1,
            status = Pending\<rparr>"
    by (simp_all add: two_running_eval)
  have "tasks ?stopped 0 =
       Some \<lparr>task_command = SendEventCommand order_placed None, on_done = 0,
             status = Done Succeeded\<rparr>"
    using pend [OF zero] by (simp add: loop schedule_first_ends)
  moreover have "tasks ?stopped 1 =
       Some \<lparr>task_command = AcknowledgeEventCommand order_placed None, on_done = 1,
             status = Done Cancelled\<rparr>
     \<and> slept ?stopped = slept two_running + 1"
    using pend [OF one] by (simp add: loop schedule_first_ends)
  moreover have "slept two_running = 0"
    by (simp add: two_running_eval start_def initial_def)
  moreover have "\<not> consumer_task ?stopped" and "running_commands ?stopped = {}"
    using g by blast+
  ultimately show ?thesis
    by (simp add: stop_drain_two_running)
qed

end
